theory Spec2Isabelle
  imports Complex_Main "HOL-Library.AList"
begin

section \<open>Transcript assembly on kmer graphs (assembler.py)\<close>

text \<open>
  A shallow embedding of \<^verbatim>\<open>assemblyline/lib/assemble/assembler.py\<close>.
  Python exceptions are values of \<open>py_error\<close>; a fallible function returns
  \<open>py_error + 'a\<close>. Scores are Python floats in the source and exact reals here:
  rounding is outside the model, the control flow (including every division by zero) is
  inside it. Python sets and dicts are duplicate-free lists and association lists in
  insertion order; no result below depends on the iteration order.
\<close>

datatype py_error = IndexError | KeyError | ZeroDivisionError | TypeError | ValueError

subsection \<open>Exons, strands and the splice graph\<close>

text \<open>
  Modelled from the spec: \<^verbatim>\<open>Exon\<close> and \<^verbatim>\<open>NEG_STRAND\<close> are imported from
  \<^verbatim>\<open>assemblyline.lib.transcript\<close>, which is not part of the sources at hand. The spec
  describes an exon as an immutable interval with a start and an end, compared by value,
  and the strand as a two-valued indicator.
\<close>

datatype exon = Exon (start: int) (end': int)

datatype strand = POS_STRAND | NEG_STRAND

text \<open>
  The splice graph \<^verbatim>\<open>G\<close> is a networkx digraph. The assembler reads its node
  dictionary (only the optional \<^verbatim>\<open>CHAIN_NODES\<close> attribute of a node) and its degrees.
\<close>

record 'n splice_graph =
  G_node :: "('n \<times> exon list option) list"
  G_edges :: "('n \<times> 'n) list"

definition G_in_degree :: "'n splice_graph \<Rightarrow> 'n \<Rightarrow> nat" where
  "G_in_degree G n = length (filter (\<lambda>e. snd e = n) (G_edges G))"

definition G_out_degree :: "'n splice_graph \<Rightarrow> 'n \<Rightarrow> nat" where
  "G_out_degree G n = length (filter (\<lambda>e. fst e = n) (G_edges G))"

definition get_start_end_nodes :: "'n splice_graph \<Rightarrow> 'n list \<times> 'n list" where
  "get_start_end_nodes G =
     (filter (\<lambda>n. G_in_degree G n = 0) (map fst (G_node G)),
      filter (\<lambda>n. G_out_degree G n = 0) (map fst (G_node G)))"

subsection \<open>expand_path_chains\<close>

text \<open>The first loop: a node with a chain is replaced by its chain, in place.\<close>

fun expand_loop :: "exon splice_graph \<Rightarrow> exon list \<Rightarrow> exon list \<Rightarrow> py_error + exon list" where
  "expand_loop G newpath [] = Inr newpath"
| "expand_loop G newpath (n # ns) =
     (case map_of (G_node G) n of
        None \<Rightarrow> Inl KeyError
      | Some nd \<Rightarrow>
          (case nd of
             Some chain_nodes \<Rightarrow> expand_loop G (newpath @ chain_nodes) ns
           | None \<Rightarrow> expand_loop G (newpath @ [n]) ns))"

text \<open>
  \<^verbatim>\<open>Exon(chain[0].start, chain[-1].end)\<close>; indexing an empty chain raises.
\<close>

definition merge_chain :: "exon list \<Rightarrow> py_error + exon" where
  "merge_chain chain =
     (case chain of [] \<Rightarrow> Inl IndexError
      | c # cs \<Rightarrow> Inr (Exon (start c) (end' (last (c # cs)))))"

text \<open>The second loop: the state is \<open>(newpath, chain)\<close>.\<close>

fun collapse_loop :: "exon list \<Rightarrow> exon list \<Rightarrow> exon list \<Rightarrow> py_error + (exon list \<times> exon list)" where
  "collapse_loop newpath chain [] = Inr (newpath, chain)"
| "collapse_loop newpath chain (v # vs) =
     (case chain of
        [] \<Rightarrow> Inl IndexError
      | c # cs \<Rightarrow>
          if end' (last (c # cs)) \<noteq> start v then
            (case merge_chain chain of
               Inl e \<Rightarrow> Inl e
             | Inr m \<Rightarrow> collapse_loop (newpath @ [m]) ([] @ [v]) vs)
          else collapse_loop newpath (chain @ [v]) vs)"

definition expand_path_chains :: "exon splice_graph \<Rightarrow> strand \<Rightarrow> exon list \<Rightarrow> py_error + exon list" where
  "expand_path_chains G strand path =
     (let path = (if strand = NEG_STRAND then rev path else path) in
      case expand_loop G [] path of
        Inl e \<Rightarrow> Inl e
      | Inr path \<Rightarrow>
          (case path of
             [] \<Rightarrow> Inl IndexError
           | p0 # rest \<Rightarrow>
               (case collapse_loop [] [p0] rest of
                  Inl e \<Rightarrow> Inl e
                | Inr (newpath, chain) \<Rightarrow>
                    (case merge_chain chain of
                       Inl e \<Rightarrow> Inl e
                     | Inr m \<Rightarrow> Inr (newpath @ [m])))))"

text \<open>
  The merge rule in the words of the spec: a run of exons in which each one's end equals
  the next one's start becomes one exon from the first start to the last end.
\<close>

fun merge_runs :: "exon list \<Rightarrow> exon list" where
  "merge_runs [] = []"
| "merge_runs [e] = [e]"
| "merge_runs (e1 # e2 # es) =
     (if end' e1 = start e2 then merge_runs (Exon (start e1) (end' e2) # es)
      else e1 # merge_runs (e2 # es))"

subsection \<open>Python sequences\<close>

text \<open>\<^verbatim>\<open>xs[i:j]\<close> for any two integers: a negative index counts from the end, and
  both are clamped into the list.\<close>

definition py_slice :: "'a list \<Rightarrow> int \<Rightarrow> int \<Rightarrow> 'a list" where
  "py_slice xs i j =
     (let n = int (length xs);
          i' = (if i < 0 then max 0 (i + n) else min i n);
          j' = (if j < 0 then max 0 (j + n) else min j n)
      in take (nat (j' - i')) (drop (nat i') xs))"

text \<open>\<^verbatim>\<open>xrange(a, b)\<close> is \<open>[a..b - 1]\<close>.\<close>

definition get_kmers :: "'a list \<Rightarrow> int \<Rightarrow> 'a list list" where
  "get_kmers path k =
     map (\<lambda>i. py_slice path i (i + k)) [0..int (length path) - (k - 1) - 1]"

subsection \<open>The kmer graph\<close>

definition SOURCE :: int where "SOURCE = -1"
definition SINK :: int where "SINK = -2"

record node_attrs =
  NODE_SCORE :: real
  SMOOTH_FWD :: real
  SMOOTH_REV :: real
  SMOOTH_TMP :: real

definition init_node_attrs :: node_attrs where
  "init_node_attrs = \<lparr>NODE_SCORE = 0, SMOOTH_FWD = 0, SMOOTH_REV = 0, SMOOTH_TMP = 0\<rparr>"

text \<open>
  The networkx digraph \<^verbatim>\<open>K\<close>: its node dictionary \<^verbatim>\<open>K.node\<close>, its edges, and
  the three entries of \<^verbatim>\<open>K.graph\<close>.
\<close>

record 'n kmer_graph =
  K_node :: "(int \<times> node_attrs) list"
  K_edges :: "(int \<times> int) list"
  K_id_kmer_map :: "(int \<times> 'n list) list"
  K_source :: int
  K_sink :: int

definition K_nodes :: "'n kmer_graph \<Rightarrow> int list" where
  "K_nodes K = map fst (K_node K)"

definition K_in_degree :: "'n kmer_graph \<Rightarrow> int \<Rightarrow> nat" where
  "K_in_degree K n = length (filter (\<lambda>e. snd e = n) (K_edges K))"

definition K_out_degree :: "'n kmer_graph \<Rightarrow> int \<Rightarrow> nat" where
  "K_out_degree K n = length (filter (\<lambda>e. fst e = n) (K_edges K))"

definition K_successors :: "'n kmer_graph \<Rightarrow> int \<Rightarrow> int list" where
  "K_successors K n = map snd (filter (\<lambda>e. fst e = n) (K_edges K))"

definition K_predecessors :: "'n kmer_graph \<Rightarrow> int \<Rightarrow> int list" where
  "K_predecessors K n = map fst (filter (\<lambda>e. snd e = n) (K_edges K))"

text \<open>\<^verbatim>\<open>if n not in K: K.add_node(n, attr_dict=init_node_attrs())\<close>\<close>

definition K_add_node_if_absent :: "'n kmer_graph \<Rightarrow> int \<Rightarrow> 'n kmer_graph" where
  "K_add_node_if_absent K n =
     (if n \<in> set (K_nodes K) then K else K\<lparr>K_node := K_node K @ [(n, init_node_attrs)]\<rparr>)"

text \<open>
  \<^verbatim>\<open>K.add_edge(u, v)\<close>. Both ends are nodes of \<^verbatim>\<open>K\<close> at each call in
  \<^verbatim>\<open>add_path\<close> (they were added just before), so the edge is all that is added;
  adding an edge that is there changes nothing.
\<close>

definition K_add_edge :: "'n kmer_graph \<Rightarrow> int \<Rightarrow> int \<Rightarrow> 'n kmer_graph" where
  "K_add_edge K u v =
     (if (u, v) \<in> set (K_edges K) then K else K\<lparr>K_edges := K_edges K @ [(u, v)]\<rparr>)"

text \<open>\<^verbatim>\<open>K.remove_nodes_from(ns)\<close> removes the nodes and every edge at one of them.\<close>

definition K_remove_nodes_from :: "'n kmer_graph \<Rightarrow> int list \<Rightarrow> 'n kmer_graph" where
  "K_remove_nodes_from K ns =
     K\<lparr>K_node := filter (\<lambda>p. fst p \<notin> set ns) (K_node K),
       K_edges := filter (\<lambda>e. fst e \<notin> set ns \<and> snd e \<notin> set ns) (K_edges K)\<rparr>"

text \<open>An update in place of the attribute dictionary of node \<open>n\<close>.\<close>

definition K_update_attrs :: "'n kmer_graph \<Rightarrow> int \<Rightarrow> (node_attrs \<Rightarrow> node_attrs) \<Rightarrow> 'n kmer_graph" where
  "K_update_attrs K n f = K\<lparr>K_node := AList.map_entry n f (K_node K)\<rparr>"

subsection \<open>add_path\<close>

text \<open>
  The loop over \<^verbatim>\<open>path[1:]\<close>. The variable \<^verbatim>\<open>kmerattrs\<close> of the source is a
  reference to the attribute dictionary of the node visited last; the loop returns that
  node's id with the graph.
\<close>

fun add_path_loop :: "'n kmer_graph \<Rightarrow> int \<Rightarrow> int list \<Rightarrow> real \<Rightarrow> 'n kmer_graph \<times> int" where
  "add_path_loop K from_id [] score = (K, from_id)"
| "add_path_loop K from_id (to_id # rest) score =
     (let K = K_add_node_if_absent K to_id;
          K = K_update_attrs K to_id (\<lambda>a. a\<lparr>NODE_SCORE := NODE_SCORE a + score\<rparr>);
          K = K_add_edge K from_id to_id
      in add_path_loop K to_id rest score)"

definition add_path :: "'n kmer_graph \<Rightarrow> int list \<Rightarrow> real \<Rightarrow> py_error + 'n kmer_graph" where
  "add_path K path score =
     (case path of
        [] \<Rightarrow> Inl IndexError
      | from_id # rest \<Rightarrow>
          (let K = K_add_node_if_absent K from_id;
               K = K_update_attrs K from_id (\<lambda>a. a\<lparr>NODE_SCORE := NODE_SCORE a + score\<rparr>);
               K = K_update_attrs K from_id (\<lambda>a. a\<lparr>SMOOTH_REV := SMOOTH_REV a + score\<rparr>);
               (K, last_id) = add_path_loop K from_id rest score
           in Inr (K_update_attrs K last_id (\<lambda>a. a\<lparr>SMOOTH_FWD := SMOOTH_FWD a + score\<rparr>))))"

fun add_paths :: "'n kmer_graph \<Rightarrow> (int list \<times> real) list \<Rightarrow> py_error + 'n kmer_graph" where
  "add_paths K [] = Inr K"
| "add_paths K (ps # rest) =
     (case add_path K (fst ps) (snd ps) of
        Inl e \<Rightarrow> Inl e
      | Inr K' \<Rightarrow> add_paths K' rest)"

subsection \<open>hash_kmers and find_short_path_kmers\<close>

text \<open>\<^verbatim>\<open>kmer_hash[key].add(kmer_id)\<close> on a \<^verbatim>\<open>defaultdict\<close> of sets.\<close>

definition hash_add :: "('n list \<times> int list) list \<Rightarrow> 'n list \<Rightarrow> int \<Rightarrow> ('n list \<times> int list) list" where
  "hash_add kmer_hash key kmer_id =
     (let s = (case map_of kmer_hash key of None \<Rightarrow> [] | Some s \<Rightarrow> s)
      in AList.update key (if kmer_id \<in> set s then s else s @ [kmer_id]) kmer_hash)"

definition hash_kmers :: "(int \<times> 'n list) list \<Rightarrow> int \<Rightarrow> int \<Rightarrow> ('n list \<times> int list) list" where
  "hash_kmers id_kmer_map k ksmall =
     fold (\<lambda>(kmer_id, kmer) kmer_hash.
             fold (\<lambda>i kmer_hash. hash_add kmer_hash (py_slice kmer i (i + ksmall)) kmer_id)
                  [0..k - (ksmall - 1) - 1] kmer_hash)
          id_kmer_map []"

text \<open>The first loop of \<^verbatim>\<open>find_short_path_kmers\<close>: the state is
  \<open>(matching_kmers, total_score)\<close>; \<^verbatim>\<open>K.node[kmer_id]\<close> raises for an id that is no
  node of \<^verbatim>\<open>K\<close>.\<close>

fun matching_loop :: "'n kmer_graph \<Rightarrow> (int \<times> real) list \<Rightarrow> real \<Rightarrow> int list \<Rightarrow> py_error + ((int \<times> real) list \<times> real)" where
  "matching_loop K matching_kmers total_score [] = Inr (matching_kmers, total_score)"
| "matching_loop K matching_kmers total_score (kmer_id # rest) =
     (case map_of (K_node K) kmer_id of
        None \<Rightarrow> Inl KeyError
      | Some a \<Rightarrow>
          matching_loop K (matching_kmers @ [(kmer_id, NODE_SCORE a)])
            (total_score + NODE_SCORE a) rest)"

text \<open>The second loop: the float division raises when \<^verbatim>\<open>total_score\<close> is zero.\<close>

fun fraction_loop :: "real \<Rightarrow> real \<Rightarrow> (int \<times> real) list \<Rightarrow> py_error + (int list \<times> real) list" where
  "fraction_loop score total_score [] = Inr []"
| "fraction_loop score total_score ((kmer_id, kmer_score) # rest) =
     (if total_score = 0 then Inl ZeroDivisionError
      else (case fraction_loop score total_score rest of
              Inl e \<Rightarrow> Inl e
            | Inr ys \<Rightarrow> Inr (([kmer_id], score * (kmer_score / total_score)) # ys)))"

text \<open>The generator is consumed at once by \<^verbatim>\<open>list(...)\<close> in its one caller, so the model
  returns the list of what it yields, or the exception raised on the way.\<close>

definition find_short_path_kmers :: "('n list \<times> int list) list \<Rightarrow> 'n kmer_graph \<Rightarrow> 'n list \<Rightarrow> real \<Rightarrow> py_error + (int list \<times> real) list" where
  "find_short_path_kmers kmer_hash K path score =
     (case map_of kmer_hash path of
        None \<Rightarrow> Inr []
      | Some kmer_ids \<Rightarrow>
          (case matching_loop K [] 0 kmer_ids of
             Inl e \<Rightarrow> Inl e
           | Inr (matching_kmers, total_score) \<Rightarrow> fraction_loop score total_score matching_kmers))"

subsection \<open>clip_dangling_ends\<close>

text \<open>\<^verbatim>\<open>sum(K.node[n][NODE_SCORE] for n in new_clip_nodes)\<close>\<close>

fun sum_node_scores :: "'n kmer_graph \<Rightarrow> int list \<Rightarrow> py_error + real" where
  "sum_node_scores K [] = Inr 0"
| "sum_node_scores K (n # ns) =
     (case map_of (K_node K) n of
        None \<Rightarrow> Inl KeyError
      | Some a \<Rightarrow>
          (case sum_node_scores K ns of
             Inl e \<Rightarrow> Inl e
           | Inr s \<Rightarrow> Inr (NODE_SCORE a + s)))"

text \<open>
  The \<^verbatim>\<open>for\<close> loop over \<^verbatim>\<open>test_nodes\<close> reads the graph and does not change it, so
  the two sets it builds are given directly: the nodes to clip, and the neighbours to
  test next. A test node is a node of \<^verbatim>\<open>K\<close> in every run of the source; for one that
  is not (and is no sentinel) the degree call of networkx raises, and the model raises
  at the score of that node.
\<close>

definition new_clip_nodes_of :: "'n kmer_graph \<Rightarrow> int list \<Rightarrow> int list" where
  "new_clip_nodes_of K test_nodes =
     filter (\<lambda>n. \<not> (n = K_source K \<or> n = K_sink K) \<and>
                 (K_in_degree K n = 0 \<or> K_out_degree K n = 0)) test_nodes"

definition new_test_nodes_of :: "'n kmer_graph \<Rightarrow> int list \<Rightarrow> int list" where
  "new_test_nodes_of K new_clip_nodes =
     remdups (concat (map (\<lambda>n. if K_in_degree K n = 0 then K_successors K n
                                 else K_predecessors K n) new_clip_nodes))"

text \<open>\<^verbatim>\<open>xs.update(ys)\<close> on sets.\<close>

definition set_update :: "'a list \<Rightarrow> 'a list \<Rightarrow> 'a list" where
  "set_update xs ys = xs @ filter (\<lambda>y. y \<notin> set xs) (remdups ys)"

function clip_loop :: "'n kmer_graph \<Rightarrow> int list \<Rightarrow> int list \<Rightarrow> real \<Rightarrow> py_error + ('n kmer_graph \<times> int list \<times> real)" where
  "clip_loop K test_nodes clip_nodes clip_score =
     (if length test_nodes > 0 then
        (let new_clip_nodes = new_clip_nodes_of K test_nodes;
             new_test_nodes = new_test_nodes_of K new_clip_nodes;
             test_nodes' = filter (\<lambda>n. n \<notin> set new_clip_nodes) new_test_nodes
         in case sum_node_scores K new_clip_nodes of
              Inl e \<Rightarrow> Inl e
            | Inr s \<Rightarrow>
                clip_loop (K_remove_nodes_from K new_clip_nodes) test_nodes'
                  (set_update clip_nodes new_clip_nodes) (clip_score + s))
      else Inr (K, clip_nodes, clip_score))"
  by pat_completeness auto
termination
proof (relation "measure (\<lambda>(K, test_nodes, clip_nodes, clip_score).
          2 * length (K_edges K) + (if test_nodes = [] then 0 else 1))", goal_cases)
  case 1
  show ?case by simp
next
  case (2 K test_nodes clip_nodes clip_score cl nt test' s)
  have le: "length (K_edges (K_remove_nodes_from K cl)) \<le> length (K_edges K)"
    by (simp add: K_remove_nodes_from_def)
  show ?case
  proof (cases "test' = []")
    case True
    with le 2(1) show ?thesis by simp
  next
    case False
    then have "set test' \<noteq> {}" by simp
    then obtain m where "m \<in> set nt" using 2(4) by auto
    then obtain c where c: "c \<in> set cl"
        and m: "m \<in> set (K_successors K c) \<or> m \<in> set (K_predecessors K c)"
      using 2(3) by (auto simp: new_test_nodes_of_def split: if_splits)
    then obtain e where "e \<in> set (K_edges K)" "\<not> (fst e \<notin> set cl \<and> snd e \<notin> set cl)"
      by (auto simp: K_successors_def K_predecessors_def)
    then have "length (filter (\<lambda>e. fst e \<notin> set cl \<and> snd e \<notin> set cl) (K_edges K))
                 < length (K_edges K)"
      by (rule length_filter_less)
    then have "length (K_edges (K_remove_nodes_from K cl)) < length (K_edges K)"
      by (simp add: K_remove_nodes_from_def)
    with False 2(1) show ?thesis by simp
  qed
qed

definition clip_dangling_ends :: "'n kmer_graph \<Rightarrow> py_error + ('n kmer_graph \<times> int list \<times> real)" where
  "clip_dangling_ends K = clip_loop K (remdups (K_nodes K)) [] 0"

text \<open>What networkx guarantees of a digraph: both ends of an edge are nodes.\<close>

definition K_wf :: "'n kmer_graph \<Rightarrow> bool" where
  "K_wf K = list_all (\<lambda>e. fst e \<in> set (K_nodes K) \<and> snd e \<in> set (K_nodes K)) (K_edges K)"

text \<open>The state of the loop of \<^verbatim>\<open>clip_dangling_ends\<close> between two rounds: every node
  that is not to be tested, and is no sentinel, has a predecessor and a successor.\<close>

definition no_dangling_outside :: "'n kmer_graph \<Rightarrow> int list \<Rightarrow> bool" where
  "no_dangling_outside K test_nodes =
     (\<forall>n\<in>set (K_nodes K) - set test_nodes. n \<noteq> K_source K \<and> n \<noteq> K_sink K \<longrightarrow>
        0 < K_in_degree K n \<and> 0 < K_out_degree K n)"

subsection \<open>create_kmer_graph\<close>

text \<open>The local variables of the first loop of \<^verbatim>\<open>create_kmer_graph\<close>.\<close>

record 'n conv_state =
  st_kmer_id_map :: "('n list \<times> int) list"
  st_id_kmer_map :: "(int \<times> 'n list) list"
  st_kmer_paths :: "(int list \<times> real) list"
  st_current_id :: int
  st_short_partial_path_dict :: "(int \<times> ('n list \<times> real) list) list"

text \<open>The inner loop \<^verbatim>\<open>for kmer in kmers\<close>, which extends \<^verbatim>\<open>kmerpath\<close>.\<close>

fun kmer_ids_loop :: "'n conv_state \<Rightarrow> int list \<Rightarrow> 'n list list \<Rightarrow> 'n conv_state \<times> int list" where
  "kmer_ids_loop st kmerpath [] = (st, kmerpath)"
| "kmer_ids_loop st kmerpath (kmer # kmers) =
     (case map_of (st_kmer_id_map st) kmer of
        None \<Rightarrow>
          kmer_ids_loop
            (st\<lparr>st_kmer_id_map := AList.update kmer (st_current_id st) (st_kmer_id_map st),
                st_id_kmer_map := AList.update (st_current_id st) kmer (st_id_kmer_map st),
                st_current_id := st_current_id st + 1\<rparr>)
            (kmerpath @ [st_current_id st]) kmers
      | Some kmer_id \<Rightarrow> kmer_ids_loop st (kmerpath @ [kmer_id]) kmers)"

text \<open>The body of the loop over \<^verbatim>\<open>partial_paths\<close>; \<^verbatim>\<open>path[0]\<close> raises on an empty path.\<close>

definition convert_path :: "'n list \<Rightarrow> 'n list \<Rightarrow> int \<Rightarrow> 'n conv_state \<Rightarrow> 'n list \<times> real \<Rightarrow> py_error + 'n conv_state" where
  "convert_path start_nodes end_nodes k st ps =
     (case ps of (path, score) \<Rightarrow>
        if path = [] then Inl IndexError
        else
          (let is_start = (hd path \<in> set start_nodes);
               is_end = (last path \<in> set end_nodes);
               full_length = (is_start \<and> is_end)
           in if int (length path) < k \<and> \<not> full_length then
                (let l = int (length path);
                     bucket = (case map_of (st_short_partial_path_dict st) l of
                                 None \<Rightarrow> [] | Some b \<Rightarrow> b)
                 in Inr (st\<lparr>st_short_partial_path_dict :=
                            AList.update l (bucket @ [(path, score)])
                              (st_short_partial_path_dict st)\<rparr>))
              else
                (let kmerpath = (if is_start then [SOURCE] else []);
                     kmers = (if int (length path) < k then [path] else get_kmers path k);
                     (st, kmerpath) = kmer_ids_loop st kmerpath kmers;
                     kmerpath = (if is_end then kmerpath @ [SINK] else kmerpath)
                 in Inr (st\<lparr>st_kmer_paths := st_kmer_paths st @ [(kmerpath, score)]\<rparr>))))"

fun convert_paths :: "'n list \<Rightarrow> 'n list \<Rightarrow> int \<Rightarrow> 'n conv_state \<Rightarrow> ('n list \<times> real) list \<Rightarrow> py_error + 'n conv_state" where
  "convert_paths start_nodes end_nodes k st [] = Inr st"
| "convert_paths start_nodes end_nodes k st (ps # rest) =
     (case convert_path start_nodes end_nodes k st ps of
        Inl e \<Rightarrow> Inl e
      | Inr st' \<Rightarrow> convert_paths start_nodes end_nodes k st' rest)"

text \<open>The loop over one bucket of short paths; the state is
  \<open>(kmer_paths, lost_paths)\<close>.\<close>

fun short_bucket_loop :: "('n list \<times> int list) list \<Rightarrow> 'n kmer_graph \<Rightarrow> (int list \<times> real) list \<Rightarrow> ('n list \<times> real) list \<Rightarrow> ('n list \<times> real) list \<Rightarrow> py_error + ((int list \<times> real) list \<times> ('n list \<times> real) list)" where
  "short_bucket_loop kmer_hash K kmer_paths lost_paths [] = Inr (kmer_paths, lost_paths)"
| "short_bucket_loop kmer_hash K kmer_paths lost_paths (ps # rest) =
     (case find_short_path_kmers kmer_hash K (fst ps) (snd ps) of
        Inl e \<Rightarrow> Inl e
      | Inr matching_paths \<Rightarrow>
          short_bucket_loop kmer_hash K (kmer_paths @ matching_paths)
            (if length matching_paths = 0 then lost_paths @ [ps] else lost_paths) rest)"

text \<open>The loop over the buckets, one hash per short length.\<close>

fun short_paths_loop :: "(int \<times> 'n list) list \<Rightarrow> 'n kmer_graph \<Rightarrow> int \<Rightarrow> (int list \<times> real) list \<Rightarrow> ('n list \<times> real) list \<Rightarrow> (int \<times> ('n list \<times> real) list) list \<Rightarrow> py_error + ((int list \<times> real) list \<times> ('n list \<times> real) list)" where
  "short_paths_loop id_kmer_map K k kmer_paths lost_paths [] = Inr (kmer_paths, lost_paths)"
| "short_paths_loop id_kmer_map K k kmer_paths lost_paths ((ksmall, short_partial_paths) # rest) =
     (case short_bucket_loop (hash_kmers id_kmer_map k ksmall) K kmer_paths lost_paths
             short_partial_paths of
        Inl e \<Rightarrow> Inl e
      | Inr (kmer_paths', lost_paths') \<Rightarrow>
          short_paths_loop id_kmer_map K k kmer_paths' lost_paths' rest)"

text \<open>The graph before dangling ends are clipped, with the lost paths.\<close>

definition build_kmer_graph :: "'n splice_graph \<Rightarrow> ('n list \<times> real) list \<Rightarrow> int \<Rightarrow> py_error + ('n kmer_graph \<times> ('n list \<times> real) list)" where
  "build_kmer_graph G partial_paths k =
     (let (start_nodes, end_nodes) = get_start_end_nodes G
      in case convert_paths start_nodes end_nodes k
             \<lparr>st_kmer_id_map = [], st_id_kmer_map = [], st_kmer_paths = [],
              st_current_id = 0, st_short_partial_path_dict = []\<rparr> partial_paths of
        Inl e \<Rightarrow> Inl e
      | Inr st \<Rightarrow>
          (let K = \<lparr>K_node = [], K_edges = [], K_id_kmer_map = st_id_kmer_map st,
                    K_source = SOURCE, K_sink = SINK\<rparr>
           in case add_paths K (st_kmer_paths st) of
                Inl e \<Rightarrow> Inl e
              | Inr K \<Rightarrow>
                  (case short_paths_loop (st_id_kmer_map st) K k [] []
                          (st_short_partial_path_dict st) of
                     Inl e \<Rightarrow> Inl e
                   | Inr (kmer_paths', lost_paths) \<Rightarrow>
                       (case add_paths K kmer_paths' of
                          Inl e \<Rightarrow> Inl e
                        | Inr K \<Rightarrow> Inr (K, lost_paths)))))"

definition create_kmer_graph :: "'n splice_graph \<Rightarrow> ('n list \<times> real) list \<Rightarrow> int \<Rightarrow> py_error + ('n kmer_graph \<times> ('n list \<times> real) list \<times> int list \<times> real)" where
  "create_kmer_graph G partial_paths k =
     (case build_kmer_graph G partial_paths k of
        Inl e \<Rightarrow> Inl e
      | Inr (K, lost_paths) \<Rightarrow>
          (case clip_dangling_ends K of
             Inl e \<Rightarrow> Inl e
           | Inr (K, clip_nodes, clip_score) \<Rightarrow> Inr (K, lost_paths, clip_nodes, clip_score)))"

text \<open>
  What the first loop of \<^verbatim>\<open>create_kmer_graph\<close> keeps true of its two dictionaries and
  its counter: \<^verbatim>\<open>kmer_id_map\<close> is \<^verbatim>\<open>id_kmer_map\<close> read backwards, the ids are the
  numbers from 0 up to the counter, and no kmer has two ids.
\<close>

definition conv_inv :: "'n conv_state \<Rightarrow> bool" where
  "conv_inv st =
     (st_kmer_id_map st = map (\<lambda>p. (snd p, fst p)) (st_id_kmer_map st)
      \<and> map fst (st_id_kmer_map st) = [0..st_current_id st - 1]
      \<and> 0 \<le> st_current_id st
      \<and> distinct (map snd (st_id_kmer_map st)))"

text \<open>Two kmers of length \<open>k\<close> that overlap in all but one position: the first without
  its head is the second without its last element.\<close>

definition kmers_overlap :: "(int \<times> 'n list) list \<Rightarrow> int \<Rightarrow> int \<Rightarrow> int \<Rightarrow> bool" where
  "kmers_overlap idk k u v =
     (case (map_of idk u, map_of idk v) of
        (Some ku, Some kv) \<Rightarrow>
          int (length ku) = k \<and> int (length kv) = k \<and> tl ku = butlast kv
      | _ \<Rightarrow> False)"

text \<open>The shape of a path of kmer ids that the first loop appends to
  \<^verbatim>\<open>kmer_paths\<close>: ids of kmers, each overlapping the next, after \<open>SOURCE\<close> or not,
  before \<open>SINK\<close> or not.\<close>

definition kmerpath_ok :: "(int \<times> 'n list) list \<Rightarrow> int \<Rightarrow> int list \<Rightarrow> bool" where
  "kmerpath_ok idk k kp =
     (\<exists>pre ids post. kp = pre @ ids @ post
        \<and> (pre = [] \<or> pre = [SOURCE]) \<and> (post = [] \<or> post = [SINK])
        \<and> ids \<noteq> []
        \<and> list_all (\<lambda>i. map_of idk i \<noteq> None) ids
        \<and> successively (kmers_overlap idk k) ids)"

text \<open>What holds of every edge of the kmer graph: it leaves \<open>SOURCE\<close> for a kmer, or
  leaves a kmer for \<open>SINK\<close>, or joins two overlapping kmers.\<close>

definition edge_ok :: "(int \<times> 'n list) list \<Rightarrow> int \<Rightarrow> int \<Rightarrow> int \<Rightarrow> bool" where
  "edge_ok idk k u v =
     ((u = SOURCE \<and> map_of idk v \<noteq> None) \<or> (map_of idk u \<noteq> None \<and> v = SINK)
      \<or> kmers_overlap idk k u v)"

text \<open>The kmers of a path, as the first loop of \<^verbatim>\<open>create_kmer_graph\<close> takes them.\<close>

definition path_kmers :: "'n list \<Rightarrow> int \<Rightarrow> 'n list list" where
  "path_kmers path k = (if int (length path) < k then [path] else get_kmers path k)"

subsection \<open>optimize_k\<close>

text \<open>\<^verbatim>\<open>sum(len(path)*score for path,score in paths)\<close>\<close>

definition path_score_sum :: "('n list \<times> real) list \<Rightarrow> real" where
  "path_score_sum paths = sum_list (map (\<lambda>(path, score). real (length path) * score) paths)"

text \<open>
  One iteration of the loop, up to the comparison with the threshold: the graph at
  \<open>k\<close> and its sensitivity. The divisions raise when the total score is zero, and the
  arguments of the log line (which are computed whatever the log level) divide by
  \<^verbatim>\<open>len(K)\<close> and \<^verbatim>\<open>len(partial_paths)\<close>.
\<close>

definition k_iteration :: "'n splice_graph \<Rightarrow> ('n list \<times> real) list \<Rightarrow> real \<Rightarrow> int \<Rightarrow> py_error + ('n kmer_graph \<times> real)" where
  "k_iteration G partial_paths total_score k =
     (case create_kmer_graph G partial_paths k of
        Inl e \<Rightarrow> Inl e
      | Inr (K, lost_paths, clip_nodes, clip_score) \<Rightarrow>
          (let lost_path_score = path_score_sum lost_paths;
               total_lost_score = lost_path_score + clip_score;
               kept_score = total_score - total_lost_score
           in if total_score = 0 then Inl ZeroDivisionError
              else
                (let score_sensitivity = kept_score / total_score
                 in if length (K_node K) = 0 \<or> length partial_paths = 0
                    then Inl ZeroDivisionError
                    else Inr (K, score_sensitivity))))"

fun optimize_k_loop :: "'n splice_graph \<Rightarrow> ('n list \<times> real) list \<Rightarrow> real \<Rightarrow> real \<Rightarrow> ('n kmer_graph \<times> int) option \<Rightarrow> int list \<Rightarrow> py_error + ('n kmer_graph \<times> int) option" where
  "optimize_k_loop G partial_paths total_score sensitivity_threshold last_accepted [] = Inr last_accepted"
| "optimize_k_loop G partial_paths total_score sensitivity_threshold last_accepted (k # ks) =
     (case k_iteration G partial_paths total_score k of
        Inl e \<Rightarrow> Inl e
      | Inr (K, score_sensitivity) \<Rightarrow>
          if score_sensitivity < sensitivity_threshold then Inr last_accepted
          else optimize_k_loop G partial_paths total_score sensitivity_threshold
                 (Some (K, k)) ks)"

text \<open>The result \<open>Inr None\<close> is the Python value \<^verbatim>\<open>None\<close>.\<close>

definition optimize_k :: "'n splice_graph \<Rightarrow> ('n list \<times> real) list \<Rightarrow> int \<Rightarrow> int \<Rightarrow> real \<Rightarrow> py_error + ('n kmer_graph \<times> int) option" where
  "optimize_k G partial_paths kmin kmax sensitivity_threshold =
     optimize_k_loop G partial_paths (path_score_sum partial_paths) sensitivity_threshold
       None [kmin..kmax]"

subsection \<open>assemble_transcript_graph\<close>

text \<open>
  Modelled from the spec: \<^verbatim>\<open>PathInfo\<close> is imported from \<^verbatim>\<open>base\<close>, which is not
  part of the sources at hand; the spec describes it as a score with a sequence of exons.
\<close>

datatype PathInfo = PathInfo real "exon list"

text \<open>\<^verbatim>\<open>id_kmer_map[n][-1] for n in ns\<close>\<close>

fun last_elements :: "(int \<times> 'n list) list \<Rightarrow> int list \<Rightarrow> py_error + 'n list" where
  "last_elements id_kmer_map [] = Inr []"
| "last_elements id_kmer_map (n # ns) =
     (case map_of id_kmer_map n of
        None \<Rightarrow> Inl KeyError
      | Some kmer \<Rightarrow>
          if kmer = [] then Inl IndexError
          else (case last_elements id_kmer_map ns of
                  Inl e \<Rightarrow> Inl e
                | Inr xs \<Rightarrow> Inr (last kmer # xs)))"

text \<open>The two lines that rebuild the node path from a path of kmer ids:
  \<^verbatim>\<open>path = list(id_kmer_map[kmer_path[1]])\<close> and
  \<^verbatim>\<open>path.extend(id_kmer_map[n][-1] for n in kmer_path[2:-1])\<close>.\<close>

definition reconstruct_path :: "(int \<times> 'n list) list \<Rightarrow> int list \<Rightarrow> py_error + 'n list" where
  "reconstruct_path id_kmer_map kmer_path =
     (if length kmer_path < 2 then Inl IndexError
      else (case map_of id_kmer_map (kmer_path ! 1) of
              None \<Rightarrow> Inl KeyError
            | Some kmer \<Rightarrow>
                (case last_elements id_kmer_map (py_slice kmer_path 2 (- 1)) of
                   Inl e \<Rightarrow> Inl e
                 | Inr xs \<Rightarrow> Inr (kmer @ xs))))"

fun assemble_loop :: "exon splice_graph \<Rightarrow> strand \<Rightarrow> (int \<times> exon list) list \<Rightarrow> PathInfo list \<Rightarrow> (int list \<times> real) list \<Rightarrow> py_error + PathInfo list" where
  "assemble_loop G strand id_kmer_map path_info_list [] = Inr path_info_list"
| "assemble_loop G strand id_kmer_map path_info_list ((kmer_path, score) # rest) =
     (case reconstruct_path id_kmer_map kmer_path of
        Inl e \<Rightarrow> Inl e
      | Inr path \<Rightarrow>
          (case expand_path_chains G strand path of
             Inl e \<Rightarrow> Inl e
           | Inr path \<Rightarrow>
               assemble_loop G strand id_kmer_map (path_info_list @ [PathInfo score path]) rest))"

text \<open>
  The smoother and the path finder (\<^verbatim>\<open>smooth_graph\<close>, \<^verbatim>\<open>find_suboptimal_paths\<close>) are
  imported from modules that are not part of the sources at hand; they are parameters.
  The smoother changes the graph in place, so here it returns the graph.
  Unpacking \<^verbatim>\<open>None\<close> into \<^verbatim>\<open>K, k\<close> raises a \<^verbatim>\<open>TypeError\<close>.
\<close>

definition assemble_transcript_graph :: "(exon kmer_graph \<Rightarrow> exon kmer_graph) \<Rightarrow> (exon kmer_graph \<Rightarrow> int \<Rightarrow> int \<Rightarrow> real \<Rightarrow> int \<Rightarrow> (int list \<times> real) list) \<Rightarrow> exon splice_graph \<Rightarrow> strand \<Rightarrow> (exon list \<times> real) list \<Rightarrow> int \<Rightarrow> real \<Rightarrow> real \<Rightarrow> int \<Rightarrow> py_error + PathInfo list" where
  "assemble_transcript_graph smooth_graph find_suboptimal_paths G strand partial_paths
       user_kmax ksensitivity fraction_major_path max_paths =
     (let ksensitivity = min (max 0 ksensitivity) 1;
          fraction_major_path = min (max 0 fraction_major_path) 1
      in case (if user_kmax > 0 then Inr user_kmax
               else if partial_paths = [] then Inl ValueError
               else (let ls = map (\<lambda>x. int (length (fst x))) partial_paths
                     in Inr (fold max (tl ls) (hd ls)))) of
           Inl e \<Rightarrow> Inl e
         | Inr kmax \<Rightarrow>
             (let kmin = (if ksensitivity > 0 then 1 else kmax)
              in case optimize_k G partial_paths kmin kmax ksensitivity of
                   Inl e \<Rightarrow> Inl e
                 | Inr None \<Rightarrow> Inl TypeError
                 | Inr (Some (K, k)) \<Rightarrow>
                     (let K = smooth_graph K
                      in assemble_loop G strand (K_id_kmer_map K) []
                           (find_suboptimal_paths K (K_source K) (K_sink K)
                              fraction_major_path max_paths))))"

subsection \<open>Acceptance of a candidate k\<close>

text \<open>The outcome of the comparison \<^verbatim>\<open>score_sensitivity < sensitivity_threshold\<close> in
  the iteration of \<^verbatim>\<open>optimize_k\<close> at \<open>k\<close>: the iteration accepts \<open>k\<close>, or it breaks
  out of the loop; an iteration that raises does neither.\<close>

definition k_accepted :: "'n splice_graph \<Rightarrow> ('n list \<times> real) list \<Rightarrow> real \<Rightarrow> int \<Rightarrow> bool" where
  "k_accepted G partial_paths sensitivity_threshold k =
     (case k_iteration G partial_paths (path_score_sum partial_paths) k of
        Inl e \<Rightarrow> False
      | Inr (K, score_sensitivity) \<Rightarrow> \<not> score_sensitivity < sensitivity_threshold)"

definition k_rejected :: "'n splice_graph \<Rightarrow> ('n list \<times> real) list \<Rightarrow> real \<Rightarrow> int \<Rightarrow> bool" where
  "k_rejected G partial_paths sensitivity_threshold k =
     (case k_iteration G partial_paths (path_score_sum partial_paths) k of
        Inl e \<Rightarrow> False
      | Inr (K, score_sensitivity) \<Rightarrow> score_sensitivity < sensitivity_threshold)"

subsection \<open>Example inputs\<close>

text \<open>Three touching exons in a row, without chains.\<close>

definition G_row :: "exon splice_graph" where
  "G_row = \<lparr>G_node = [(Exon 100 120, None), (Exon 120 140, None), (Exon 140 160, None)],
            G_edges = [(Exon 100 120, Exon 120 140), (Exon 120 140, Exon 140 160)]\<rparr>"

text \<open>One exon, which is both a leaf source and a leaf sink.\<close>

definition G_single :: "exon splice_graph" where
  "G_single = \<lparr>G_node = [(Exon 0 10, None)], G_edges = []\<rparr>"

text \<open>A first and a last exon with two alternative middle exons.\<close>

definition G_alt :: "exon splice_graph" where
  "G_alt = \<lparr>G_node = [(Exon 0 10, None), (Exon 20 30, None), (Exon 40 50, None),
                      (Exon 60 70, None)],
            G_edges = [(Exon 0 10, Exon 20 30), (Exon 20 30, Exon 60 70),
                       (Exon 0 10, Exon 40 50), (Exon 40 50, Exon 60 70)]\<rparr>"

text \<open>A full-length path with an isolated fragment that carries most of the score.\<close>

definition pp_isolated :: "(exon list \<times> real) list" where
  "pp_isolated = [([Exon 0 10, Exon 20 30, Exon 60 70], 1), ([Exon 40 50], 10)]"

text \<open>A full-length path with a fragment that starts at the first exon.\<close>

definition pp_fragment :: "(exon list \<times> real) list" where
  "pp_fragment = [([Exon 0 10, Exon 20 30, Exon 60 70], 1), ([Exon 0 10, Exon 40 50], 1)]"

text \<open>A full-length path and a fragment that share their first window at \<open>k = 2\<close>.\<close>

definition pp_shared :: "(exon list \<times> real) list" where
  "pp_shared = [([Exon 0 10, Exon 20 30, Exon 60 70], 2), ([Exon 0 10, Exon 20 30], 5)]"

text \<open>A full-length path of score zero with a short path inside it.\<close>

definition pp_zero :: "(exon list \<times> real) list" where
  "pp_zero = [([Exon 0 10, Exon 20 30, Exon 60 70], 0), ([Exon 20 30], 5)]"

text \<open>A kmer graph with a dangling chain: node 2 has no successor, and node 1 has
  none once node 2 is gone.\<close>

definition K_dangling :: "exon kmer_graph" where
  "K_dangling =
     \<lparr>K_node = [(- 1, init_node_attrs\<lparr>NODE_SCORE := 4\<rparr>),
                (0, init_node_attrs\<lparr>NODE_SCORE := 4\<rparr>),
                (1, init_node_attrs\<lparr>NODE_SCORE := 1\<rparr>),
                (2, init_node_attrs\<lparr>NODE_SCORE := 2\<rparr>),
                (- 2, init_node_attrs\<lparr>NODE_SCORE := 4\<rparr>)],
      K_edges = [(- 1, 0), (0, - 2), (0, 1), (1, 2)],
      K_id_kmer_map = [(0, [Exon 0 10]), (1, [Exon 20 30]), (2, [Exon 40 50])],
      K_source = SOURCE, K_sink = SINK\<rparr>"

text \<open>A path finder for the examples: it returns the one path from the source over the
  vertices 0 and 1 to the sink, with score 1, when the graph has the edges of that path.\<close>

definition walk_path_finder :: "exon kmer_graph \<Rightarrow> int \<Rightarrow> int \<Rightarrow> real \<Rightarrow> int \<Rightarrow> (int list \<times> real) list" where
  "walk_path_finder K source sink fraction_major_path max_paths =
     (if successively (\<lambda>u v. (u, v) \<in> set (K_edges K)) [source, 0, 1, sink]
      then [([source, 0, 1, sink], 1)] else [])"

subsection \<open>Invariants of the graph construction\<close>

text \<open>Every path of kmer ids collected by the first loop is made of ids of kmers and
  the two sentinels.\<close>

definition kmer_paths_in_ids :: "'n conv_state \<Rightarrow> bool" where
  "kmer_paths_in_ids st =
     (\<forall>ps\<in>set (st_kmer_paths st). set (fst ps) \<subseteq> fst ` set (st_id_kmer_map st) \<union> {SOURCE, SINK})"

text \<open>The paths that \<open>find_short_path_kmers\<close> yields: one node of the graph each.\<close>

definition single_nodes :: "'n kmer_graph \<Rightarrow> (int list \<times> real) list \<Rightarrow> bool" where
  "single_nodes K kps = (\<forall>ps\<in>set kps. \<exists>i. fst ps = [i] \<and> i \<in> set (K_nodes K))"

text \<open>No path in a bucket of short paths is full-length.\<close>

definition buckets_not_full :: "'n list \<Rightarrow> 'n list \<Rightarrow> 'n conv_state \<Rightarrow> bool" where
  "buckets_not_full sn en st =
     (\<forall>b\<in>set (st_short_partial_path_dict st). \<forall>ps\<in>set (snd b).
        \<not> (hd (fst ps) \<in> set sn \<and> last (fst ps) \<in> set en))"

text \<open>No kmer is empty or longer than \<open>k\<close>.\<close>

definition kmers_len_ok :: "(int \<times> 'n list) list \<Rightarrow> int \<Rightarrow> bool" where
  "kmers_len_ok idk k = (\<forall>w\<in>snd ` set idk. w \<noteq> [] \<and> int (length w) \<le> k)"

text \<open>The state of the first loop: the kmers are as long as they may be, and every
  path of kmer ids has its shape.\<close>

definition kmer_paths_ok :: "int \<Rightarrow> 'n conv_state \<Rightarrow> bool" where
  "kmer_paths_ok k st =
     (kmers_len_ok (st_id_kmer_map st) k
      \<and> (\<forall>ps\<in>set (st_kmer_paths st). kmerpath_ok (st_id_kmer_map st) k (fst ps)))"

text \<open>The score of a node, zero for a node that is not in the graph.\<close>

definition K_score :: "'n kmer_graph \<Rightarrow> int \<Rightarrow> real" where
  "K_score K n = (case map_of (K_node K) n of None \<Rightarrow> 0 | Some a \<Rightarrow> NODE_SCORE a)"

text \<open>The test of the first loop that sends a path to a bucket of short paths.\<close>

definition deferred :: "'n list \<Rightarrow> 'n list \<Rightarrow> int \<Rightarrow> 'n list \<Rightarrow> bool" where
  "deferred sn en k path =
     (int (length path) < k \<and> \<not> (hd path \<in> set sn \<and> last path \<in> set en))"

text \<open>A path of kmer ids and the partial path it was made from.\<close>

definition path_rel :: "(int \<times> 'n list) list \<Rightarrow> int \<Rightarrow> int list \<times> real \<Rightarrow> 'n list \<times> real \<Rightarrow> bool" where
  "path_rel idk k kps ps =
     (snd kps = snd ps
      \<and> (\<exists>pre ids post. fst kps = pre @ ids @ post
            \<and> set pre \<subseteq> {SOURCE} \<and> set post \<subseteq> {SINK}
            \<and> map (map_of idk) ids = map Some (path_kmers (fst ps) k)))"






section \<open>Properties\<close>

subsection \<open>expand_path_chains\<close>

lemma merge_chain_nonempty:
  "chain \<noteq> [] \<Longrightarrow> merge_chain chain = Inr (Exon (start (hd chain)) (end' (last chain)))"
  by (cases chain) (simp_all add: merge_chain_def)

text \<open>The chain of the loop stands for the exon it will be merged into; with that
  reading the loop computes \<open>merge_runs\<close>.\<close>

lemma collapse_loop_merge_runs:
  "chain \<noteq> [] \<Longrightarrow>
   \<exists>np' ch'. collapse_loop np chain vs = Inr (np', ch') \<and> ch' \<noteq> [] \<and>
     np' @ [Exon (start (hd ch')) (end' (last ch'))] =
     np @ merge_runs (Exon (start (hd chain)) (end' (last chain)) # vs)"
proof (induction vs arbitrary: np chain)
  case Nil
  then show ?case by simp
next
  case (Cons v vs)
  obtain c cs where ch: "chain = c # cs" using Cons.prems by (cases chain) auto
  show ?case
  proof (cases "end' (last chain) = start v")
    case True
    have "chain @ [v] \<noteq> []" by simp
    from Cons.IH[OF this, of np] True ch show ?thesis by (cases v) auto
  next
    case False
    have "[v] \<noteq> []" by simp
    from Cons.IH[OF this, of "np @ [Exon (start (hd chain)) (end' (last chain))]"] False ch
    show ?thesis by (cases v) (auto simp: merge_chain_def)
  qed
qed

lemma expand_loop_no_chain:
  "\<forall>n\<in>set path. map_of (G_node G) n = Some None \<Longrightarrow> expand_loop G np path = Inr (np @ path)"
  by (induction path arbitrary: np) auto

lemma merge_runs_id: "successively (\<lambda>a b. end' a \<noteq> start b) xs \<Longrightarrow> merge_runs xs = xs"
  by (induction xs rule: merge_runs.induct) auto

lemma expand_path_chains_eq:
  "expand_path_chains G strand path =
     (case expand_loop G [] (if strand = NEG_STRAND then rev path else path) of
        Inl e \<Rightarrow> Inl e
      | Inr xs \<Rightarrow> if xs = [] then Inl IndexError else Inr (merge_runs xs))"
proof (cases "expand_loop G [] (if strand = NEG_STRAND then rev path else path)")
  case (Inl e)
  then show ?thesis by (simp add: expand_path_chains_def)
next
  case (Inr xs)
  show ?thesis
  proof (cases xs)
    case Nil
    with Inr show ?thesis by (simp add: expand_path_chains_def)
  next
    case (Cons p0 rest)
    have "[p0] \<noteq> []" by simp
    from collapse_loop_merge_runs[OF this, of "[]" rest]
    obtain np' ch' where c: "collapse_loop [] [p0] rest = Inr (np', ch')" "ch' \<noteq> []"
      "np' @ [Exon (start (hd ch')) (end' (last ch'))] = merge_runs (p0 # rest)"
      by auto
    with Inr Cons show ?thesis
      by (simp add: expand_path_chains_def merge_chain_nonempty)
  qed
qed

text \<open>
  C3, as the claim states it, fails: on the negative strand the path of exons
  (100,120), (120,140), (140,160) is reversed to (140,160), (120,140), (100,120), and in
  that order no exon ends where the next one starts, so the three exons are returned
  and not the single exon (100,160).
\<close>

theorem expand_path_chains_scenario_D_not_collapsed:
  "expand_path_chains G_row NEG_STRAND [Exon 100 120, Exon 120 140, Exon 140 160]
     \<noteq> Inr [Exon 100 160]"
  by (simp add: expand_path_chains_def G_row_def merge_chain_def)

text \<open>
  C3, amended: on the negative strand \<open>expand_path_chains\<close> reverses the node sequence
  before chains are expanded and exons merged, and the merge rule (a run of exons in
  which each one's end equals the next one's start becomes one maximal exon) is applied
  to the sequence in the reversed order. So the path (100,120), (120,140), (140,160) on
  the negative strand is returned as (140,160), (120,140), (100,120); the path
  (140,160), (120,140), (100,120) on the negative strand is reversed to ascending order
  and collapsed into the single exon (100,160).
\<close>

theorem expand_path_chains_neg_strand:
  "expand_path_chains G NEG_STRAND path =
     (case expand_loop G [] (rev path) of
        Inl e \<Rightarrow> Inl e
      | Inr xs \<Rightarrow> if xs = [] then Inl IndexError else Inr (merge_runs xs))
   \<and> expand_path_chains G_row NEG_STRAND [Exon 100 120, Exon 120 140, Exon 140 160]
       = Inr [Exon 140 160, Exon 120 140, Exon 100 120]
   \<and> expand_path_chains G_row NEG_STRAND [Exon 140 160, Exon 120 140, Exon 100 120]
       = Inr [Exon 100 160]"
proof (intro conjI)
  show "expand_path_chains G NEG_STRAND path =
     (case expand_loop G [] (rev path) of
        Inl e \<Rightarrow> Inl e
      | Inr xs \<Rightarrow> if xs = [] then Inl IndexError else Inr (merge_runs xs))"
    by (simp add: expand_path_chains_eq)
  show "expand_path_chains G_row NEG_STRAND [Exon 100 120, Exon 120 140, Exon 140 160]
       = Inr [Exon 140 160, Exon 120 140, Exon 100 120]"
    by (simp add: expand_path_chains_def G_row_def merge_chain_def)
  show "expand_path_chains G_row NEG_STRAND [Exon 140 160, Exon 120 140, Exon 100 120]
       = Inr [Exon 100 160]"
    by (simp add: expand_path_chains_def G_row_def merge_chain_def)
qed

text \<open>
  C10: a non-empty path, not on the negative strand, whose nodes are nodes of the splice
  graph without a chain attribute and in which no exon ends where the next one starts,
  is returned as it is. The exons need not even be increasing.
\<close>

theorem expand_path_chains_identity:
  assumes "path \<noteq> []"
    and "strand \<noteq> NEG_STRAND"
    and "\<forall>n\<in>set path. map_of (G_node G) n = Some None"
    and "successively (\<lambda>a b. end' a \<noteq> start b) path"
  shows "expand_path_chains G strand path = Inr path"
  using assms by (simp add: expand_path_chains_eq expand_loop_no_chain merge_runs_id)

theorem expand_path_chains_identity_witness:
  "expand_path_chains G_alt POS_STRAND [Exon 0 10, Exon 20 30, Exon 60 70]
     = Inr [Exon 0 10, Exon 20 30, Exon 60 70]"
proof -
  have h1: "[Exon 0 10, Exon 20 30, Exon 60 70] \<noteq> []" by simp
  have h2: "POS_STRAND \<noteq> NEG_STRAND" by simp
  have h3: "\<forall>n\<in>set [Exon 0 10, Exon 20 30, Exon 60 70]. map_of (G_node G_alt) n = Some None"
    by (simp add: G_alt_def)
  have h4: "successively (\<lambda>a b. end' a \<noteq> start b) [Exon 0 10, Exon 20 30, Exon 60 70]"
    by simp
  show ?thesis by (rule expand_path_chains_identity[OF h1 h2 h3 h4])
qed

subsection \<open>optimize_k\<close>

lemma upto_split_at: "kmin \<le> k \<Longrightarrow> k \<le> kmax \<Longrightarrow> [kmin..kmax] = [kmin..k - 1] @ k # [k + 1..kmax]"
  using upto_split1[of kmin k kmax] upto_rec1[of k kmax] by simp

lemma optimize_k_loop_accepted:
  "\<forall>j\<in>set js. k_accepted G pp thr j \<Longrightarrow> js \<noteq> [] \<Longrightarrow>
   \<exists>K s. k_iteration G pp (path_score_sum pp) (last js) = Inr (K, s) \<and> \<not> s < thr \<and>
     optimize_k_loop G pp (path_score_sum pp) thr acc (js @ ks) =
     optimize_k_loop G pp (path_score_sum pp) thr (Some (K, last js)) ks"
proof (induction js arbitrary: acc)
  case Nil
  then show ?case by simp
next
  case (Cons j js)
  from Cons.prems obtain K s where it: "k_iteration G pp (path_score_sum pp) j = Inr (K, s)" "\<not> s < thr"
    by (auto simp: k_accepted_def split: sum.splits)
  show ?case
  proof (cases "js = []")
    case True
    with it show ?thesis by simp
  next
    case False
    with Cons.IH[of "Some (K, j)"] Cons.prems it show ?thesis by simp
  qed
qed

lemma optimize_k_loop_rejected:
  "k_rejected G pp thr k \<Longrightarrow>
   optimize_k_loop G pp (path_score_sum pp) thr acc (k # ks) = Inr acc"
  by (auto simp: k_rejected_def split: sum.splits)

text \<open>
  C5: when the loop from \<open>kmin\<close> reaches \<open>k\<close> (every smaller candidate was accepted) and
  the sensitivity at \<open>k\<close> is below the threshold, the result is that of the loop that
  ends at \<open>k\<close>, whatever \<open>kmax\<close> is and whatever the iterations at larger candidates
  would do: no larger candidate is evaluated. The candidate \<open>k\<close> is not accepted: the
  result is the graph and the number of \<open>k - 1\<close>, the largest candidate accepted before,
  and \<^verbatim>\<open>None\<close> when \<open>k\<close> is \<open>kmin\<close> itself.
\<close>

theorem optimize_k_early_stop:
  assumes "kmin \<le> k" and "k \<le> kmax"
    and "\<forall>j\<in>set [kmin..k - 1]. k_accepted G partial_paths thr j"
    and "k_rejected G partial_paths thr k"
  shows "optimize_k G partial_paths kmin kmax thr = optimize_k G partial_paths kmin k thr
    \<and> (k = kmin \<longrightarrow> optimize_k G partial_paths kmin kmax thr = Inr None)
    \<and> (kmin < k \<longrightarrow>
         (\<exists>K s. k_iteration G partial_paths (path_score_sum partial_paths) (k - 1) = Inr (K, s)
            \<and> \<not> s < thr
            \<and> optimize_k G partial_paths kmin kmax thr = Inr (Some (K, k - 1))))"
proof -
  let ?t = "path_score_sum partial_paths"
  have split: "[kmin..kmax] = [kmin..k - 1] @ k # [k + 1..kmax]"
    using assms(1,2) by (rule upto_split_at)
  have splitk: "[kmin..k] = [kmin..k - 1] @ k # []"
    using upto_split_at[of kmin k k] assms(1) by simp
  show ?thesis
  proof (cases "k = kmin")
    case True
    then have "[kmin..k - 1] = []" by simp
    with split splitk True assms(4) show ?thesis
      by (simp add: optimize_k_def optimize_k_loop_rejected del: optimize_k_loop.simps)
  next
    case False
    with assms(1) have lt: "kmin < k" by simp
    then have ne: "[kmin..k - 1] \<noteq> []" by simp
    have la: "last [kmin..k - 1] = k - 1" using lt by (simp add: upto_rec2)
    have r: "\<And>acc ks. optimize_k_loop G partial_paths ?t thr acc (k # ks) = Inr acc"
      using assms(4) by (rule optimize_k_loop_rejected)
    from optimize_k_loop_accepted[OF assms(3) ne, of None "k # [k + 1..kmax]"]
    obtain K s where 1: "k_iteration G partial_paths ?t (k - 1) = Inr (K, s)" "\<not> s < thr"
      "optimize_k_loop G partial_paths ?t thr None ([kmin..k - 1] @ k # [k + 1..kmax]) = Inr (Some (K, k - 1))"
      unfolding la r by auto
    from optimize_k_loop_accepted[OF assms(3) ne, of None "k # []"] 1(1)
    have 2: "optimize_k_loop G partial_paths ?t thr None ([kmin..k - 1] @ k # []) = Inr (Some (K, k - 1))"
      unfolding la r by auto
    from 1 2 lt show ?thesis
      unfolding optimize_k_def split splitk by auto
  qed
qed

theorem optimize_k_early_stop_witness:
  "optimize_k G_alt pp_fragment 1 5 (7/10) = optimize_k G_alt pp_fragment 1 3 (7/10)
   \<and> (\<exists>K s. k_iteration G_alt pp_fragment (path_score_sum pp_fragment) 2 = Inr (K, s)
          \<and> \<not> s < 7/10
          \<and> optimize_k G_alt pp_fragment 1 5 (7/10) = Inr (Some (K, 2)))"
proof -
  have h1: "(1::int) \<le> 3" and h2: "(3::int) \<le> 5" by simp_all
  have h3: "\<forall>j\<in>set [1..3 - 1]. k_accepted G_alt pp_fragment (7/10) j" by code_simp
  have h4: "k_rejected G_alt pp_fragment (7/10) 3" by code_simp
  have h5: "(3::int) - 1 = 2" and h6: "(1::int) < 3" by simp_all
  from optimize_k_early_stop[OF h1 h2 h3 h4] h6 show ?thesis unfolding h5 by blast
qed

text \<open>
  C1: the code does not do what the claim asks for. With the splice graph \<open>G_alt\<close>, the
  paths \<open>pp_isolated\<close> and a threshold of one half, the sensitivity at \<open>kmin = 1\<close> is
  3/13, and \<open>optimize_k\<close> returns \<^verbatim>\<open>None\<close>: no error of its own and no fallback. Its
  caller unpacks the result into two names, which raises a \<^verbatim>\<open>TypeError\<close>, whatever the
  smoother and the path finder are.
\<close>

theorem optimize_k_returns_None:
  "optimize_k G_alt pp_isolated 1 3 (1/2) = Inr None
   \<and> assemble_transcript_graph smooth_graph find_suboptimal_paths G_alt strand pp_isolated
        3 (1/2) fraction_major_path max_paths = Inl TypeError"
proof -
  have 1: "optimize_k G_alt pp_isolated 1 3 (1/2) = Inr None" by code_simp
  have 2: "min (max 0 (1/2)) 1 = (1/2::real)" by simp
  show ?thesis using 1 by (simp add: assemble_transcript_graph_def 2 Let_def)
qed

subsection \<open>find_short_path_kmers\<close>

text \<open>
  C7: the code does not do what the claim asks for. A short path whose matching kmers
  all have score zero makes \<open>find_short_path_kmers\<close> divide by zero: the exception is
  raised, here for the kmer of the path (0,10), (20,30), (60,70) with score zero and the
  short path (20,30), and \<open>create_kmer_graph\<close> raises with it on \<open>pp_zero\<close> at \<open>k = 3\<close>.
\<close>

theorem find_short_path_kmers_zero_division:
  "find_short_path_kmers
     (hash_kmers [(0, [Exon 0 10, Exon 20 30, Exon 60 70])] 3 1)
     \<lparr>K_node = [(0, init_node_attrs)], K_edges = [],
      K_id_kmer_map = [(0, [Exon 0 10, Exon 20 30, Exon 60 70])],
      K_source = SOURCE, K_sink = SINK\<rparr>
     [Exon 20 30] 5 = Inl ZeroDivisionError
   \<and> create_kmer_graph G_alt pp_zero 3 = Inl ZeroDivisionError"
  by code_simp

subsection \<open>clip_dangling_ends\<close>

lemma sum_node_scores_total:
  "set ns \<subseteq> set (K_nodes K) \<Longrightarrow> \<exists>s. sum_node_scores K ns = Inr s"
proof (induction ns)
  case Nil
  then show ?case by simp
next
  case (Cons n ns)
  then have "map_of (K_node K) n \<noteq> None"
    by (simp add: K_nodes_def map_of_eq_None_iff)
  with Cons show ?case by auto
qed

lemma in_degree_pos_iff: "0 < K_in_degree K n \<longleftrightarrow> (\<exists>p. (p, n) \<in> set (K_edges K))"
  by (force simp: K_in_degree_def filter_empty_conv)

lemma out_degree_pos_iff: "0 < K_out_degree K n \<longleftrightarrow> (\<exists>q. (n, q) \<in> set (K_edges K))"
  by (force simp: K_out_degree_def filter_empty_conv)

lemma clip_step_invariant:
  assumes wf: "K_wf K" and sub: "set test_nodes \<subseteq> set (K_nodes K)"
    and inv: "no_dangling_outside K test_nodes"
  defines "cl \<equiv> new_clip_nodes_of K test_nodes"
  defines "test' \<equiv> filter (\<lambda>n. n \<notin> set cl) (new_test_nodes_of K cl)"
  defines "K' \<equiv> K_remove_nodes_from K cl"
  shows "K_wf K'" and "set test' \<subseteq> set (K_nodes K')" and "no_dangling_outside K' test'"
proof -
  have nodes': "set (K_nodes K') = set (K_nodes K) - set cl"
    by (auto simp: K'_def K_nodes_def K_remove_nodes_from_def)
  have edges': "set (K_edges K') = {e \<in> set (K_edges K). fst e \<notin> set cl \<and> snd e \<notin> set cl}"
    by (auto simp: K'_def K_remove_nodes_from_def)
  have ends: "\<And>u v. (u, v) \<in> set (K_edges K) \<Longrightarrow> u \<in> set (K_nodes K) \<and> v \<in> set (K_nodes K)"
    using wf by (auto simp: K_wf_def list_all_iff)
  show "K_wf K'"
    using ends by (auto simp: K_wf_def list_all_iff nodes' edges')
  have nt: "\<And>m. m \<in> set (new_test_nodes_of K cl) \<Longrightarrow> m \<in> set (K_nodes K)"
    using ends by (auto simp: new_test_nodes_of_def K_successors_def K_predecessors_def split: if_splits)
  show "set test' \<subseteq> set (K_nodes K')"
    using nt by (auto simp: test'_def nodes')
  have clD: "\<And>c. c \<in> set cl \<Longrightarrow> K_in_degree K c = 0 \<or> K_out_degree K c = 0"
    by (auto simp: cl_def new_clip_nodes_of_def)
  show "no_dangling_outside K' test'"
    unfolding no_dangling_outside_def
  proof (intro ballI impI)
    fix n assume n: "n \<in> set (K_nodes K') - set test'"
      and ns: "n \<noteq> K_source K' \<and> n \<noteq> K_sink K'"
    then have nK: "n \<in> set (K_nodes K)" and ncl: "n \<notin> set cl" by (auto simp: nodes')
    have ns': "n \<noteq> K_source K \<and> n \<noteq> K_sink K"
      using ns by (simp add: K'_def K_remove_nodes_from_def)
    have nnt: "n \<notin> set (new_test_nodes_of K cl)" using n ncl by (auto simp: test'_def)
    have deg: "0 < K_in_degree K n \<and> 0 < K_out_degree K n"
    proof (cases "n \<in> set test_nodes")
      case True
      with ncl ns' show ?thesis by (auto simp: cl_def new_clip_nodes_of_def)
    next
      case False
      with inv nK ns' show ?thesis by (auto simp: no_dangling_outside_def)
    qed
    have pred_keeps: "p \<notin> set cl" if "(p, n) \<in> set (K_edges K)" for p
    proof
      assume pc: "p \<in> set cl"
      from that have "0 < K_out_degree K p" by (auto simp: out_degree_pos_iff)
      with clD[OF pc] have "K_in_degree K p = 0" by auto
      with that pc have "n \<in> set (new_test_nodes_of K cl)"
        by (force simp: new_test_nodes_of_def K_successors_def)
      with nnt show False by simp
    qed
    have succ_keeps: "q \<notin> set cl" if "(n, q) \<in> set (K_edges K)" for q
    proof
      assume qc: "q \<in> set cl"
      from that have "0 < K_in_degree K q" by (auto simp: in_degree_pos_iff)
      with that qc have "n \<in> set (new_test_nodes_of K cl)"
        by (force simp: new_test_nodes_of_def K_predecessors_def)
      with nnt show False by simp
    qed
    from deg obtain p q where "(p, n) \<in> set (K_edges K)" "(n, q) \<in> set (K_edges K)"
      by (auto simp: in_degree_pos_iff out_degree_pos_iff)
    with pred_keeps succ_keeps ncl have "(p, n) \<in> set (K_edges K')" "(n, q) \<in> set (K_edges K')"
      by (auto simp: edges')
    then show "0 < K_in_degree K' n \<and> 0 < K_out_degree K' n"
      by (auto simp: in_degree_pos_iff out_degree_pos_iff)
  qed
qed

lemma clip_loop_no_dangling:
  "K_wf K \<Longrightarrow> set test_nodes \<subseteq> set (K_nodes K) \<Longrightarrow> no_dangling_outside K test_nodes \<Longrightarrow>
   \<exists>K' cn cs. clip_loop K test_nodes clip_nodes clip_score = Inr (K', cn, cs) \<and>
     K_wf K' \<and> no_dangling_outside K' [] \<and> K_source K' = K_source K \<and> K_sink K' = K_sink K"
proof (induction K test_nodes clip_nodes clip_score rule: clip_loop.induct)
  case (1 K test_nodes clip_nodes clip_score)
  show ?case
  proof (cases "length test_nodes > 0")
    case False
    with "1.prems" show ?thesis by (subst clip_loop.simps) simp
  next
    case True
    let ?cl = "new_clip_nodes_of K test_nodes"
    let ?nt = "new_test_nodes_of K ?cl"
    let ?test' = "filter (\<lambda>n. n \<notin> set ?cl) ?nt"
    have "set ?cl \<subseteq> set (K_nodes K)"
      using "1.prems"(2) by (auto simp: new_clip_nodes_of_def)
    then obtain s where s: "sum_node_scores K ?cl = Inr s"
      using sum_node_scores_total by blast
    note step = clip_step_invariant[OF "1.prems"]
    from "1.IH"[OF True refl refl refl s step]
    obtain K' cn cs where r: "clip_loop (K_remove_nodes_from K ?cl) ?test'
         (set_update clip_nodes ?cl) (clip_score + s) = Inr (K', cn, cs)"
      "K_wf K'" "no_dangling_outside K' []"
      "K_source K' = K_source (K_remove_nodes_from K ?cl)"
      "K_sink K' = K_sink (K_remove_nodes_from K ?cl)"
      by blast
    have "clip_loop K test_nodes clip_nodes clip_score = Inr (K', cn, cs)"
      using True s r(1) by (subst clip_loop.simps) (simp add: Let_def)
    with r show ?thesis by (simp add: K_remove_nodes_from_def)
  qed
qed

lemma clip_dangling_ends_no_dangling:
  "no_dangling_outside K [] \<Longrightarrow> clip_dangling_ends K = Inr (K, [], 0)"
proof -
  assume nd: "no_dangling_outside K []"
  have cl: "new_clip_nodes_of K (remdups (K_nodes K)) = []"
    using nd by (auto simp: new_clip_nodes_of_def no_dangling_outside_def filter_empty_conv)
  have rm: "K_remove_nodes_from K [] = K" by (simp add: K_remove_nodes_from_def)
  have e: "clip_loop K [] [] 0 = Inr (K, [], 0)" by (subst clip_loop.simps) simp
  show ?thesis
  proof (cases "K_nodes K = []")
    case True
    then show ?thesis by (simp add: clip_dangling_ends_def e)
  next
    case False
    then show ?thesis
      unfolding clip_dangling_ends_def
      by (subst clip_loop.simps) (simp add: cl rm e new_test_nodes_of_def set_update_def)
  qed
qed

subsection \<open>The first loop of create_kmer_graph\<close>

lemma update_fresh: "k \<notin> fst ` set al \<Longrightarrow> AList.update k v al = al @ [(k, v)]"
  by (induction al) auto

lemma map_of_append_Some: "map_of xs x = Some y \<Longrightarrow> map_of (xs @ ys) x = Some y"
  by (simp add: map_add_Some_iff)

lemma conv_inv_lookup:
  assumes "conv_inv st" and "map_of (st_kmer_id_map st) kmer = Some i"
  shows "map_of (st_id_kmer_map st) i = Some kmer"
proof -
  from assms(2) have "(kmer, i) \<in> set (st_kmer_id_map st)" by (rule map_of_SomeD)
  with assms(1) have in_idk: "(i, kmer) \<in> set (st_id_kmer_map st)"
    by (auto simp: conv_inv_def)
  from assms(1) have "distinct (map fst (st_id_kmer_map st))" by (simp add: conv_inv_def)
  with in_idk show ?thesis by simp
qed

lemma conv_inv_fresh:
  assumes "conv_inv st" and "map_of (st_kmer_id_map st) kmer = None"
  shows "conv_inv (st\<lparr>st_kmer_id_map := AList.update kmer (st_current_id st) (st_kmer_id_map st),
                st_id_kmer_map := AList.update (st_current_id st) kmer (st_id_kmer_map st),
                st_current_id := st_current_id st + 1\<rparr>)"
    and "AList.update (st_current_id st) kmer (st_id_kmer_map st)
           = st_id_kmer_map st @ [(st_current_id st, kmer)]"
proof -
  let ?c = "st_current_id st"
  from assms(2) have "kmer \<notin> fst ` set (st_kmer_id_map st)" by (simp add: map_of_eq_None_iff)
  then have f1: "kmer \<notin> fst ` set (st_kmer_id_map st)" .
  have "fst ` set (st_id_kmer_map st) = set [0..?c - 1]"
    using assms(1) by (metis conv_inv_def set_map)
  then have f2: "?c \<notin> fst ` set (st_id_kmer_map st)" by simp
  from f1 assms(1) have f3: "kmer \<notin> snd ` set (st_id_kmer_map st)"
    by (force simp: conv_inv_def)
  show u: "AList.update ?c kmer (st_id_kmer_map st) = st_id_kmer_map st @ [(?c, kmer)]"
    using f2 by (rule update_fresh)
  have u2: "AList.update kmer ?c (st_kmer_id_map st) = st_kmer_id_map st @ [(kmer, ?c)]"
    using f1 by (rule update_fresh)
  have up: "[0..?c] = [0..?c - 1] @ [?c]" using assms(1) by (simp add: conv_inv_def upto_rec2)
  show "conv_inv (st\<lparr>st_kmer_id_map := AList.update kmer ?c (st_kmer_id_map st),
                st_id_kmer_map := AList.update ?c kmer (st_id_kmer_map st),
                st_current_id := ?c + 1\<rparr>)"
    using assms(1) f3 unfolding u u2 by (simp add: conv_inv_def up)
qed

lemma kmer_ids_loop_spec:
  "conv_inv st \<Longrightarrow>
   \<exists>st' ids ext. kmer_ids_loop st kp kmers = (st', kp @ ids) \<and> conv_inv st'
      \<and> st_id_kmer_map st' = st_id_kmer_map st @ ext
      \<and> st_kmer_paths st' = st_kmer_paths st
      \<and> st_short_partial_path_dict st' = st_short_partial_path_dict st
      \<and> map (map_of (st_id_kmer_map st')) ids = map Some kmers"
proof (induction kmers arbitrary: st kp)
  case Nil
  then show ?case by simp
next
  case (Cons kmer kmers)
  show ?case
  proof (cases "map_of (st_kmer_id_map st) kmer")
    case None
    let ?st1 = "st\<lparr>st_kmer_id_map := AList.update kmer (st_current_id st) (st_kmer_id_map st),
                st_id_kmer_map := AList.update (st_current_id st) kmer (st_id_kmer_map st),
                st_current_id := st_current_id st + 1\<rparr>"
    note f = conv_inv_fresh[OF Cons.prems None]
    from Cons.IH[OF f(1), of "kp @ [st_current_id st]"]
    obtain st' ids ext where r: "kmer_ids_loop ?st1 (kp @ [st_current_id st]) kmers = (st', (kp @ [st_current_id st]) @ ids)"
      "conv_inv st'" "st_id_kmer_map st' = st_id_kmer_map ?st1 @ ext"
      "st_kmer_paths st' = st_kmer_paths ?st1"
      "st_short_partial_path_dict st' = st_short_partial_path_dict ?st1"
      "map (map_of (st_id_kmer_map st')) ids = map Some kmers"
      by blast
    have idk: "st_id_kmer_map st' = st_id_kmer_map st @ ((st_current_id st, kmer) # ext)"
      using r(3) f(2) by simp
    have "map_of (st_id_kmer_map st @ [(st_current_id st, kmer)]) (st_current_id st) = Some kmer"
      using f(2) by (metis AList.update_conv' fun_upd_same)
    then have "map_of ((st_id_kmer_map st @ [(st_current_id st, kmer)]) @ ext) (st_current_id st) = Some kmer"
      by (rule map_of_append_Some)
    then have "map_of (st_id_kmer_map st') (st_current_id st) = Some kmer"
      using idk by simp
    with r idk None show ?thesis
      by (intro exI[of _ st'] exI[of _ "st_current_id st # ids"] exI[of _ "(st_current_id st, kmer) # ext"]) simp
  next
    case (Some i)
    from Cons.IH[OF Cons.prems, of "kp @ [i]"]
    obtain st' ids ext where r: "kmer_ids_loop st (kp @ [i]) kmers = (st', (kp @ [i]) @ ids)"
      "conv_inv st'" "st_id_kmer_map st' = st_id_kmer_map st @ ext"
      "st_kmer_paths st' = st_kmer_paths st"
      "st_short_partial_path_dict st' = st_short_partial_path_dict st"
      "map (map_of (st_id_kmer_map st')) ids = map Some kmers"
      by blast
    have "map_of (st_id_kmer_map st) i = Some kmer"
      using Cons.prems Some by (rule conv_inv_lookup)
    then have "map_of (st_id_kmer_map st') i = Some kmer"
      using r(3) by (simp add: map_of_append_Some del: map_of_append)
    with r Some show ?thesis
      by (intro exI[of _ st'] exI[of _ "i # ids"] exI[of _ ext]) simp
  qed
qed

subsection \<open>Windows of a path\<close>

lemma length_get_kmers: "length (get_kmers path k) = nat (int (length path) - k + 1)"
  by (simp add: get_kmers_def algebra_simps)

lemma py_slice_window:
  "0 \<le> i \<Longrightarrow> 0 \<le> k \<Longrightarrow> i + k \<le> int (length xs) \<Longrightarrow>
   py_slice xs i (i + k) = take (nat k) (drop (nat i) xs)"
  by (simp add: py_slice_def Let_def min_def)

lemma nth_get_kmers:
  assumes "0 \<le> k" and "j < length (get_kmers path k)"
  shows "get_kmers path k ! j = take (nat k) (drop j path)"
proof -
  from assms(2) have j: "int j + k \<le> int (length path)" by (simp add: length_get_kmers)
  then have "[0..int (length path) - (k - 1) - 1] ! j = 0 + int j"
    by (intro nth_upto) simp
  with assms j show ?thesis
    using py_slice_window[of "int j" k path] by (simp add: get_kmers_def algebra_simps)
qed

lemma get_kmers_windows:
  assumes "1 \<le> k" and "k \<le> int (length path)"
  shows "get_kmers path k \<noteq> []"
    and "\<forall>w\<in>set (get_kmers path k). int (length w) = k"
    and "successively (\<lambda>a b. tl a = butlast b) (get_kmers path k)"
proof -
  let ?ks = "get_kmers path k"
  have len: "length ?ks = nat (int (length path) - k + 1)" by (rule length_get_kmers)
  with assms show "?ks \<noteq> []" by auto
  have k0: "0 \<le> k" using assms by simp
  show "\<forall>w\<in>set ?ks. int (length w) = k"
  proof
    fix w assume "w \<in> set ?ks"
    then obtain j where j: "j < length ?ks" "w = ?ks ! j" by (auto simp: in_set_conv_nth)
    then have "w = take (nat k) (drop j path)" using nth_get_kmers[OF k0] by simp
    moreover from j(1) have "int j + k \<le> int (length path)" by (simp add: len)
    ultimately show "int (length w) = k" using k0 by simp
  qed
  show "successively (\<lambda>a b. tl a = butlast b) ?ks"
    unfolding successively_conv_nth
  proof (intro allI impI)
    fix j assume sj: "Suc j < length ?ks"
    then have a: "?ks ! j = take (nat k) (drop j path)"
      and b: "?ks ! Suc j = take (nat k) (drop (Suc j) path)"
      by (simp_all add: nth_get_kmers[OF k0])
    from sj have "int (Suc j) + k \<le> int (length path)" by (simp add: len)
    then have le: "nat k \<le> length (drop (Suc j) path)" by simp
    have "tl (take (nat k) (drop j path)) = take (nat k - 1) (drop (Suc j) path)"
      by (simp add: tl_take tl_drop drop_Suc)
    also have "\<dots> = butlast (take (nat k) (drop (Suc j) path))"
      using le by (simp add: butlast_take)
    finally show "tl (?ks ! j) = butlast (?ks ! Suc j)" using a b by simp
  qed
qed

lemma chain_drop:
  assumes "\<forall>w\<in>set (a # ks). w \<noteq> []"
    and "successively (\<lambda>a b. tl a = butlast b) (a # ks)"
    and "j \<le> length ks"
  shows "drop j (a @ map last ks) = ((a # ks) ! j) @ map last (drop j ks)"
  using assms
proof (induction ks arbitrary: a j)
  case Nil
  then show ?case by simp
next
  case (Cons b ks)
  show ?case
  proof (cases j)
    case 0
    then show ?thesis by simp
  next
    case (Suc j')
    from Cons.prems have ne: "a \<noteq> []" "b \<noteq> []" and ov: "tl a = butlast b"
      and rest: "successively (\<lambda>a b. tl a = butlast b) (b # ks)" by auto
    have "a @ map last (b # ks) = (hd a # tl a) @ map last (b # ks)"
      using ne by simp
    also have "\<dots> = hd a # ((butlast b @ [last b]) @ map last ks)" using ov by simp
    also have "\<dots> = hd a # (b @ map last ks)" using ne by simp
    finally have eq: "a @ map last (b # ks) = hd a # (b @ map last ks)" .
    have "drop j (a @ map last (b # ks)) = drop j' (b @ map last ks)"
      unfolding eq Suc by simp
    also have "\<dots> = ((b # ks) ! j') @ map last (drop j' ks)"
      using Cons.prems Suc rest by (intro Cons.IH) auto
    finally show ?thesis using Suc by simp
  qed
qed

lemma chain_get_kmers:
  assumes k: "1 \<le> k" and ne: "ks \<noteq> []"
    and len: "\<forall>w\<in>set ks. int (length w) = k"
    and ch: "successively (\<lambda>a b. tl a = butlast b) ks"
  shows "get_kmers (hd ks @ map last (tl ks)) k = ks"
proof -
  obtain a ks' where ks: "ks = a # ks'" using ne by (cases ks) auto
  let ?p = "a @ map last ks'"
  have la: "int (length a) = k" using len ks by simp
  have nonempty: "\<forall>w\<in>set (a # ks'). w \<noteq> []" using len k ks by auto
  have l1: "length (get_kmers ?p k) = length ks"
    using la ks by (simp add: length_get_kmers)
  have "get_kmers ?p k ! j = ks ! j" if "j < length ks" for j
  proof -
    have jl: "j \<le> length ks'" using that ks by simp
    have "get_kmers ?p k ! j = take (nat k) (drop j ?p)"
      using that l1 k by (intro nth_get_kmers) auto
    also have "drop j ?p = ((a # ks') ! j) @ map last (drop j ks')"
      using nonempty ch jl unfolding ks by (rule chain_drop)
    also have "take (nat k) \<dots> = (a # ks') ! j"
    proof -
      have "(a # ks') ! j \<in> set ks" using that ks by (metis nth_mem)
      then have "int (length ((a # ks') ! j)) = k" using len by simp
      then show ?thesis by simp
    qed
    finally show ?thesis using ks by simp
  qed
  with l1 have "get_kmers ?p k = ks" by (simp add: list_eq_iff_nth_eq)
  then show ?thesis using ks by simp
qed

lemma last_elements_Some:
  "map (map_of idk) ids = map Some ks \<Longrightarrow> \<forall>w\<in>set ks. w \<noteq> [] \<Longrightarrow>
   last_elements idk ids = Inr (map last ks)"
proof (induction ids arbitrary: ks)
  case Nil
  then show ?case by simp
next
  case (Cons i ids)
  then obtain w ws where ks: "ks = w # ws" by (cases ks) auto
  with Cons.prems have "map_of idk i = Some w" "w \<noteq> []"
    "map (map_of idk) ids = map Some ws" "\<forall>w\<in>set ws. w \<noteq> []" by auto
  with Cons.IH[of ws] ks show ?case by simp
qed

lemma py_slice_interior: "py_slice (a # b # ids @ [z]) 2 (- 1) = ids"
  by (simp add: py_slice_def Let_def)

lemma reconstruct_path_Some:
  assumes "map (map_of idk) (i # ids) = map Some (w # ws)" and "\<forall>w\<in>set ws. w \<noteq> []"
  shows "reconstruct_path idk (s # i # ids @ [t]) = Inr (w @ map last ws)"
proof -
  from assms have "map_of idk i = Some w" "last_elements idk ids = Inr (map last ws)"
    by (auto intro: last_elements_Some)
  then show ?thesis
    by (simp add: reconstruct_path_def py_slice_interior)
qed

lemma convert_path_Inr:
  assumes "convert_path sn en k st (path, score) = Inr st'"
  shows "path \<noteq> []"
    and "int (length path) < k \<and> \<not> (hd path \<in> set sn \<and> last path \<in> set en) \<Longrightarrow>
         st' = st\<lparr>st_short_partial_path_dict :=
                  AList.update (int (length path))
                    ((case map_of (st_short_partial_path_dict st) (int (length path)) of
                        None \<Rightarrow> [] | Some b \<Rightarrow> b) @ [(path, score)])
                    (st_short_partial_path_dict st)\<rparr>"
    and "\<not> (int (length path) < k \<and> \<not> (hd path \<in> set sn \<and> last path \<in> set en)) \<Longrightarrow>
         \<exists>st1 kp. kmer_ids_loop st (if hd path \<in> set sn then [SOURCE] else [])
                     (path_kmers path k) = (st1, kp)
           \<and> st' = st1\<lparr>st_kmer_paths := st_kmer_paths st1 @
                      [(if last path \<in> set en then kp @ [SINK] else kp, score)]\<rparr>"
  using assms
  by (auto simp: convert_path_def Let_def path_kmers_def split: if_splits prod.splits)

lemma convert_path_conv_inv:
  assumes "conv_inv st" and "convert_path sn en k st ps = Inr st'"
  shows "conv_inv st' \<and> (\<exists>ext. st_id_kmer_map st' = st_id_kmer_map st @ ext)"
proof -
  obtain path score where ps: "ps = (path, score)" by (cases ps)
  note c = convert_path_Inr[OF assms(2)[unfolded ps]]
  show ?thesis
  proof (cases "int (length path) < k \<and> \<not> (hd path \<in> set sn \<and> last path \<in> set en)")
    case True
    from c(2)[OF True] assms(1) show ?thesis by (simp add: conv_inv_def)
  next
    case False
    from c(3)[OF False] obtain st1 kp where
      l: "kmer_ids_loop st (if hd path \<in> set sn then [SOURCE] else []) (path_kmers path k) = (st1, kp)"
      and st': "st' = st1\<lparr>st_kmer_paths := st_kmer_paths st1 @
                      [(if last path \<in> set en then kp @ [SINK] else kp, score)]\<rparr>"
      by blast
    from kmer_ids_loop_spec[OF assms(1), of "if hd path \<in> set sn then [SOURCE] else []" "path_kmers path k"] l
    have "conv_inv st1" "\<exists>ext. st_id_kmer_map st1 = st_id_kmer_map st @ ext" by auto
    with st' show ?thesis by (simp add: conv_inv_def)
  qed
qed

lemma convert_paths_conv_inv:
  "conv_inv st \<Longrightarrow> convert_paths sn en k st pp = Inr st' \<Longrightarrow>
   conv_inv st' \<and> (\<exists>ext. st_id_kmer_map st' = st_id_kmer_map st @ ext)"
proof (induction pp arbitrary: st)
  case Nil
  then show ?case by simp
next
  case (Cons ps pp)
  from Cons.prems(2) obtain st1 where 1: "convert_path sn en k st ps = Inr st1"
    and 2: "convert_paths sn en k st1 pp = Inr st'"
    by (auto split: sum.splits)
  from convert_path_conv_inv[OF Cons.prems(1) 1] obtain ext1 where
    a: "conv_inv st1" "st_id_kmer_map st1 = st_id_kmer_map st @ ext1" by blast
  from Cons.IH[OF a(1) 2] a(2) show ?case by auto
qed

lemma conv_inv_init:
  "conv_inv \<lparr>st_kmer_id_map = [], st_id_kmer_map = [], st_kmer_paths = [],
             st_current_id = 0, st_short_partial_path_dict = []\<rparr>"
  by (simp add: conv_inv_def)

lemma conv_inv_ids:
  assumes "conv_inv st" and "map_of (st_id_kmer_map st) i = Some w"
  shows "0 \<le> i" and "i \<noteq> SOURCE" and "i \<noteq> SINK"
proof -
  from assms(2) have "i \<in> fst ` set (st_id_kmer_map st)"
    by (metis map_of_eq_None_iff option.distinct(1))
  also have "fst ` set (st_id_kmer_map st) = set [0..st_current_id st - 1]"
    using assms(1) by (metis conv_inv_def set_map)
  finally show "0 \<le> i" by simp
  then show "i \<noteq> SOURCE" "i \<noteq> SINK" by (simp_all add: SOURCE_def SINK_def)
qed

subsection \<open>The graph under add_path and clip_dangling_ends\<close>

lemma map_fst_map_entry: "map fst (AList.map_entry k f xs) = map fst xs"
  by (induction xs) auto

lemma K_update_attrs_simps:
  "K_nodes (K_update_attrs K n f) = K_nodes K"
  "K_edges (K_update_attrs K n f) = K_edges K"
  "K_id_kmer_map (K_update_attrs K n f) = K_id_kmer_map K"
  "K_source (K_update_attrs K n f) = K_source K"
  "K_sink (K_update_attrs K n f) = K_sink K"
  by (simp_all add: K_update_attrs_def K_nodes_def map_fst_map_entry)

lemma K_add_node_if_absent_simps:
  "set (K_nodes (K_add_node_if_absent K n)) = insert n (set (K_nodes K))"
  "distinct (K_nodes K) \<Longrightarrow> distinct (K_nodes (K_add_node_if_absent K n))"
  "K_edges (K_add_node_if_absent K n) = K_edges K"
  "K_id_kmer_map (K_add_node_if_absent K n) = K_id_kmer_map K"
  "K_source (K_add_node_if_absent K n) = K_source K"
  "K_sink (K_add_node_if_absent K n) = K_sink K"
  by (auto simp: K_add_node_if_absent_def K_nodes_def)

lemma K_add_edge_simps:
  "K_nodes (K_add_edge K u v) = K_nodes K"
  "set (K_edges (K_add_edge K u v)) = insert (u, v) (set (K_edges K))"
  "K_id_kmer_map (K_add_edge K u v) = K_id_kmer_map K"
  "K_source (K_add_edge K u v) = K_source K"
  "K_sink (K_add_edge K u v) = K_sink K"
  by (auto simp: K_add_edge_def K_nodes_def)

lemmas K_step_simps = K_update_attrs_simps K_add_node_if_absent_simps K_add_edge_simps

lemma add_path_loop_spec:
  "add_path_loop K from_id rest score = (K', l) \<Longrightarrow>
   K_id_kmer_map K' = K_id_kmer_map K \<and> K_source K' = K_source K \<and> K_sink K' = K_sink K
   \<and> set (K_nodes K') = set (K_nodes K) \<union> set rest
   \<and> (distinct (K_nodes K) \<longrightarrow> distinct (K_nodes K'))
   \<and> set (K_edges K') = set (K_edges K) \<union> set (zip (from_id # rest) rest)"
proof (induction rest arbitrary: K from_id)
  case Nil
  then show ?case by simp
next
  case (Cons to_id rest)
  let ?K1 = "K_add_edge (K_update_attrs (K_add_node_if_absent K to_id) to_id
               (\<lambda>a. a\<lparr>NODE_SCORE := NODE_SCORE a + score\<rparr>)) from_id to_id"
  from Cons.prems have "add_path_loop ?K1 to_id rest score = (K', l)" by (simp add: Let_def)
  from Cons.IH[OF this] show ?case by (auto simp: K_step_simps)
qed

lemma add_path_spec:
  assumes "add_path K path score = Inr K'"
  shows "K_id_kmer_map K' = K_id_kmer_map K \<and> K_source K' = K_source K \<and> K_sink K' = K_sink K
   \<and> set (K_nodes K') = set (K_nodes K) \<union> set path
   \<and> (distinct (K_nodes K) \<longrightarrow> distinct (K_nodes K'))
   \<and> set (K_edges K') = set (K_edges K) \<union> set (zip path (tl path))"
proof -
  from assms obtain from_id rest where p: "path = from_id # rest"
    by (cases path) (auto simp: add_path_def)
  let ?K1 = "K_update_attrs (K_update_attrs (K_add_node_if_absent K from_id) from_id
               (\<lambda>a. a\<lparr>NODE_SCORE := NODE_SCORE a + score\<rparr>)) from_id
               (\<lambda>a. a\<lparr>SMOOTH_REV := SMOOTH_REV a + score\<rparr>)"
  obtain K2 l where l: "add_path_loop ?K1 from_id rest score = (K2, l)" by (cases "add_path_loop ?K1 from_id rest score")
  with assms p have K': "K' = K_update_attrs K2 l (\<lambda>a. a\<lparr>SMOOTH_FWD := SMOOTH_FWD a + score\<rparr>)"
    by (simp add: add_path_def Let_def)
  from add_path_loop_spec[OF l] show ?thesis
    unfolding K' p by (auto simp: K_step_simps)
qed

lemma add_paths_spec:
  "add_paths K paths = Inr K' \<Longrightarrow>
   K_id_kmer_map K' = K_id_kmer_map K \<and> K_source K' = K_source K \<and> K_sink K' = K_sink K
   \<and> set (K_nodes K') = set (K_nodes K) \<union> (\<Union>ps\<in>set paths. set (fst ps))
   \<and> (distinct (K_nodes K) \<longrightarrow> distinct (K_nodes K'))
   \<and> set (K_edges K') = set (K_edges K) \<union> (\<Union>ps\<in>set paths. set (zip (fst ps) (tl (fst ps))))"
proof (induction paths arbitrary: K)
  case Nil
  then show ?case by simp
next
  case (Cons ps paths)
  from Cons.prems obtain K1 where 1: "add_path K (fst ps) (snd ps) = Inr K1"
    and 2: "add_paths K1 paths = Inr K'" by (auto split: sum.splits)
  from add_path_spec[OF 1] Cons.IH[OF 2] show ?case by auto
qed

lemma K_remove_nodes_from_simps:
  "set (K_nodes (K_remove_nodes_from K ns)) = set (K_nodes K) - set ns"
  "distinct (K_nodes K) \<Longrightarrow> distinct (K_nodes (K_remove_nodes_from K ns))"
  "set (K_edges (K_remove_nodes_from K ns)) =
     {e \<in> set (K_edges K). fst e \<notin> set ns \<and> snd e \<notin> set ns}"
  "K_id_kmer_map (K_remove_nodes_from K ns) = K_id_kmer_map K"
  "K_source (K_remove_nodes_from K ns) = K_source K"
  "K_sink (K_remove_nodes_from K ns) = K_sink K"
  by (auto simp: K_remove_nodes_from_def K_nodes_def distinct_map_filter)

lemma clip_loop_spec:
  "clip_loop K test_nodes clip_nodes clip_score = Inr (K', cn, cs) \<Longrightarrow>
   K_id_kmer_map K' = K_id_kmer_map K \<and> K_source K' = K_source K \<and> K_sink K' = K_sink K
   \<and> set (K_nodes K') \<subseteq> set (K_nodes K)
   \<and> (distinct (K_nodes K) \<longrightarrow> distinct (K_nodes K'))
   \<and> set (K_edges K') \<subseteq> set (K_edges K)"
proof (induction K test_nodes clip_nodes clip_score rule: clip_loop.induct)
  case (1 K test_nodes clip_nodes clip_score)
  show ?case
  proof (cases "length test_nodes > 0")
    case False
    with "1.prems" show ?thesis by (subst (asm) clip_loop.simps) simp
  next
    case True
    let ?cl = "new_clip_nodes_of K test_nodes"
    let ?test' = "filter (\<lambda>n. n \<notin> set ?cl) (new_test_nodes_of K ?cl)"
    from "1.prems" True obtain s where s: "sum_node_scores K ?cl = Inr s"
      and r: "clip_loop (K_remove_nodes_from K ?cl) ?test' (set_update clip_nodes ?cl)
                (clip_score + s) = Inr (K', cn, cs)"
      by (subst (asm) clip_loop.simps) (auto simp: Let_def split: sum.splits)
    from "1.IH"[OF True refl refl refl s r] show ?thesis
      by (auto simp: K_remove_nodes_from_simps)
  qed
qed

subsection \<open>Vertices and kmer ids\<close>

lemma map_of_Some_dom: "map (map_of idk) ids = map Some ks \<Longrightarrow> set ids \<subseteq> fst ` set idk"
proof (induction ids arbitrary: ks)
  case Nil
  then show ?case by simp
next
  case (Cons i ids)
  then obtain w ws where "ks = w # ws" by (cases ks) auto
  with Cons.prems have "map_of idk i = Some w" "map (map_of idk) ids = map Some ws" by auto
  with Cons.IH[of ws] show ?case by (auto dest: map_of_SomeD intro: rev_image_eqI)
qed

lemma convert_path_nodes:
  assumes "conv_inv st" and "kmer_paths_in_ids st" and "convert_path sn en k st ps = Inr st'"
  shows "kmer_paths_in_ids st'"
proof -
  obtain path score where ps: "ps = (path, score)" by (cases ps)
  note c = convert_path_Inr[OF assms(3)[unfolded ps]]
  show ?thesis
  proof (cases "int (length path) < k \<and> \<not> (hd path \<in> set sn \<and> last path \<in> set en)")
    case True
    from c(2)[OF True] assms(2) show ?thesis by (simp add: kmer_paths_in_ids_def)
  next
    case False
    let ?pre = "if hd path \<in> set sn then [SOURCE] else []"
    from c(3)[OF False] obtain st1 kp where
      l: "kmer_ids_loop st ?pre (path_kmers path k) = (st1, kp)"
      and st': "st' = st1\<lparr>st_kmer_paths := st_kmer_paths st1 @
                      [(if last path \<in> set en then kp @ [SINK] else kp, score)]\<rparr>"
      by blast
    from kmer_ids_loop_spec[OF assms(1), of ?pre "path_kmers path k"] l
    obtain ids ext where r: "kp = ?pre @ ids" "st_id_kmer_map st1 = st_id_kmer_map st @ ext"
      "st_kmer_paths st1 = st_kmer_paths st"
      "map (map_of (st_id_kmer_map st1)) ids = map Some (path_kmers path k)"
      by auto
    from map_of_Some_dom[OF r(4)] have "set ids \<subseteq> fst ` set (st_id_kmer_map st1)" .
    with r(1) have new: "set (if last path \<in> set en then kp @ [SINK] else kp)
        \<subseteq> fst ` set (st_id_kmer_map st1) \<union> {SOURCE, SINK}" by auto
    have old: "\<forall>ps\<in>set (st_kmer_paths st). set (fst ps) \<subseteq> fst ` set (st_id_kmer_map st1) \<union> {SOURCE, SINK}"
      using assms(2) r(2) unfolding kmer_paths_in_ids_def by auto
    from new old r(3) show ?thesis unfolding st' kmer_paths_in_ids_def by auto
  qed
qed

lemma convert_paths_nodes:
  "conv_inv st \<Longrightarrow> kmer_paths_in_ids st \<Longrightarrow> convert_paths sn en k st pp = Inr st' \<Longrightarrow>
   kmer_paths_in_ids st'"
proof (induction pp arbitrary: st)
  case Nil
  then show ?case by simp
next
  case (Cons ps pp)
  from Cons.prems(3) obtain st1 where 1: "convert_path sn en k st ps = Inr st1"
    and 2: "convert_paths sn en k st1 pp = Inr st'"
    by (auto split: sum.splits)
  from convert_path_conv_inv[OF Cons.prems(1) 1] have a: "conv_inv st1" by blast
  from convert_path_nodes[OF Cons.prems(1,2) 1] have b: "kmer_paths_in_ids st1" .
  from Cons.IH[OF a b 2] show ?case .
qed

text \<open>The paths that come out of the short paths are single nodes of the graph.\<close>

lemma matching_loop_nodes:
  "matching_loop K mk t ids = Inr (mk', t') \<Longrightarrow> fst ` set mk \<subseteq> set (K_nodes K) \<Longrightarrow>
   fst ` set mk' \<subseteq> set (K_nodes K)"
proof (induction ids arbitrary: mk t)
  case Nil
  then show ?case by simp
next
  case (Cons i ids)
  from Cons.prems(1) obtain a where a: "map_of (K_node K) i = Some a"
    and r: "matching_loop K (mk @ [(i, NODE_SCORE a)]) (t + NODE_SCORE a) ids = Inr (mk', t')"
    by (auto split: option.splits)
  from a have "i \<in> set (K_nodes K)"
    by (auto simp: K_nodes_def dest: map_of_SomeD intro: rev_image_eqI)
  with Cons.IH[OF r] Cons.prems(2) show ?case by auto
qed

lemma fraction_loop_single:
  "fraction_loop score t mk = Inr ys \<Longrightarrow>
   \<forall>ps\<in>set ys. \<exists>i. fst ps = [i] \<and> i \<in> fst ` set mk"
proof (induction mk arbitrary: ys)
  case Nil
  then show ?case by simp
next
  case (Cons m mk)
  obtain i s where m: "m = (i, s)" by (cases m)
  from Cons.prems m obtain ys' where "fraction_loop score t mk = Inr ys'"
    and ys: "ys = ([i], score * (s / t)) # ys'"
    by (auto split: if_splits sum.splits)
  with Cons.IH[of ys'] m show ?case by auto
qed

lemma find_short_path_kmers_single:
  assumes "find_short_path_kmers kmer_hash K path score = Inr ys"
  shows "single_nodes K ys"
proof (cases "map_of kmer_hash path")
  case None
  with assms show ?thesis by (simp add: find_short_path_kmers_def single_nodes_def)
next
  case (Some ids)
  with assms obtain mk t where 1: "matching_loop K [] 0 ids = Inr (mk, t)"
    and 2: "fraction_loop score t mk = Inr ys"
    by (auto simp: find_short_path_kmers_def split: sum.splits)
  from matching_loop_nodes[OF 1] have "fst ` set mk \<subseteq> set (K_nodes K)" by simp
  with fraction_loop_single[OF 2] show ?thesis unfolding single_nodes_def by blast
qed

lemma short_bucket_loop_spec:
  "short_bucket_loop kmer_hash K kps lost bucket = Inr (kps', lost') \<Longrightarrow> single_nodes K kps \<Longrightarrow>
   single_nodes K kps' \<and> set lost' \<subseteq> set lost \<union> set bucket"
proof (induction bucket arbitrary: kps lost)
  case Nil
  then show ?case by simp
next
  case (Cons ps bucket)
  from Cons.prems(1) obtain ys where 1: "find_short_path_kmers kmer_hash K (fst ps) (snd ps) = Inr ys"
    and 2: "short_bucket_loop kmer_hash K (kps @ ys)
              (if length ys = 0 then lost @ [ps] else lost) bucket = Inr (kps', lost')"
    by (auto split: sum.splits)
  from find_short_path_kmers_single[OF 1] Cons.prems(2) have "single_nodes K (kps @ ys)"
    by (auto simp: single_nodes_def)
  from Cons.IH[OF 2 this] show ?case by (auto split: if_splits)
qed

lemma short_paths_loop_spec:
  "short_paths_loop idk K k kps lost d = Inr (kps', lost') \<Longrightarrow> single_nodes K kps \<Longrightarrow>
   single_nodes K kps' \<and> set lost' \<subseteq> set lost \<union> (\<Union>b\<in>set d. set (snd b))"
proof (induction d arbitrary: kps lost)
  case Nil
  then show ?case by simp
next
  case (Cons b d)
  obtain ksmall bucket where b: "b = (ksmall, bucket)" by (cases b)
  from Cons.prems(1) b obtain kps1 lost1 where
    1: "short_bucket_loop (hash_kmers idk k ksmall) K kps lost bucket = Inr (kps1, lost1)"
    and 2: "short_paths_loop idk K k kps1 lost1 d = Inr (kps', lost')"
    by (auto split: sum.splits)
  from short_bucket_loop_spec[OF 1 Cons.prems(2)] have a: "single_nodes K kps1"
    "set lost1 \<subseteq> set lost \<union> set bucket" by auto
  from Cons.IH[OF 2 a(1)] a(2) b show ?case by auto
qed

text \<open>The phases of \<open>build_kmer_graph\<close>.\<close>

lemma build_kmer_graph_Inr:
  assumes "build_kmer_graph G pp k = Inr (K, lost)"
  obtains st K1 kps where
    "convert_paths (fst (get_start_end_nodes G)) (snd (get_start_end_nodes G)) k
       \<lparr>st_kmer_id_map = [], st_id_kmer_map = [], st_kmer_paths = [],
        st_current_id = 0, st_short_partial_path_dict = []\<rparr> pp = Inr st"
    "add_paths \<lparr>K_node = [], K_edges = [], K_id_kmer_map = st_id_kmer_map st,
                K_source = SOURCE, K_sink = SINK\<rparr> (st_kmer_paths st) = Inr K1"
    "short_paths_loop (st_id_kmer_map st) K1 k [] [] (st_short_partial_path_dict st)
       = Inr (kps, lost)"
    "add_paths K1 kps = Inr K"
  using assms
  by (auto simp: build_kmer_graph_def Let_def split: prod.splits sum.splits)

lemma add_paths_single_nodes:
  assumes "add_paths K kps = Inr K'" and "single_nodes K kps"
  shows "set (K_nodes K') = set (K_nodes K)" and "set (K_edges K') = set (K_edges K)"
proof -
  from assms(2) have n: "(\<Union>ps\<in>set kps. set (fst ps)) \<subseteq> set (K_nodes K)"
    by (fastforce simp: single_nodes_def)
  from assms(2) have e: "(\<Union>ps\<in>set kps. set (zip (fst ps) (tl (fst ps)))) = {}"
    by (fastforce simp: single_nodes_def)
  from add_paths_spec[OF assms(1)] n e
  show "set (K_nodes K') = set (K_nodes K)" and "set (K_edges K') = set (K_edges K)" by auto
qed

lemma create_kmer_graph_Inr:
  assumes "create_kmer_graph G pp k = Inr (K, lost, cn, cs)"
  obtains K2 where "build_kmer_graph G pp k = Inr (K2, lost)"
    "clip_dangling_ends K2 = Inr (K, cn, cs)"
  using assms by (auto simp: create_kmer_graph_def split: prod.splits sum.splits)

lemma build_kmer_graph_ids:
  assumes "build_kmer_graph G pp k = Inr (K, lost)"
  shows "distinct (K_nodes K)"
    and "distinct (map fst (K_id_kmer_map K))"
    and "distinct (map snd (K_id_kmer_map K))"
    and "set (K_nodes K) \<subseteq> fst ` set (K_id_kmer_map K) \<union> {SOURCE, SINK}"
    and "K_source K = SOURCE" and "K_sink K = SINK"
proof -
  from assms obtain st K1 kps where
    c: "convert_paths (fst (get_start_end_nodes G)) (snd (get_start_end_nodes G)) k
       \<lparr>st_kmer_id_map = [], st_id_kmer_map = [], st_kmer_paths = [],
        st_current_id = 0, st_short_partial_path_dict = []\<rparr> pp = Inr st"
    and a1: "add_paths \<lparr>K_node = [], K_edges = [], K_id_kmer_map = st_id_kmer_map st,
                K_source = SOURCE, K_sink = SINK\<rparr> (st_kmer_paths st) = Inr K1"
    and sh: "short_paths_loop (st_id_kmer_map st) K1 k [] [] (st_short_partial_path_dict st)
       = Inr (kps, lost)"
    and a2: "add_paths K1 kps = Inr K"
    by (rule build_kmer_graph_Inr)
  from convert_paths_conv_inv[OF conv_inv_init c] have ci: "conv_inv st" by blast
  have "kmer_paths_in_ids \<lparr>st_kmer_id_map = [], st_id_kmer_map = [], st_kmer_paths = [],
        st_current_id = 0, st_short_partial_path_dict = ([]::(int \<times> ('a list \<times> real) list) list)\<rparr>"
    by (simp add: kmer_paths_in_ids_def)
  from convert_paths_nodes[OF conv_inv_init this c] have ki: "kmer_paths_in_ids st" .
  note s1 = add_paths_spec[OF a1]
  note s2 = add_paths_spec[OF a2]
  have "single_nodes K1 []" by (simp add: single_nodes_def)
  from short_paths_loop_spec[OF sh this] have sn: "single_nodes K1 kps" by blast
  note s3 = add_paths_single_nodes[OF a2 sn]
  have idk: "K_id_kmer_map K = st_id_kmer_map st" using s1 s2 by simp
  show "distinct (K_nodes K)" using s1 s2 by (simp add: K_nodes_def)
  show "distinct (map fst (K_id_kmer_map K))" using ci unfolding idk by (simp add: conv_inv_def)
  show "distinct (map snd (K_id_kmer_map K))" using ci unfolding idk by (simp add: conv_inv_def)
  show "set (K_nodes K) \<subseteq> fst ` set (K_id_kmer_map K) \<union> {SOURCE, SINK}"
    using s1 ki unfolding idk s3(1) kmer_paths_in_ids_def by (auto simp: K_nodes_def)
  show "K_source K = SOURCE" "K_sink K = SINK" using s1 s2 by simp_all
qed

lemma create_kmer_graph_ids:
  assumes "create_kmer_graph G pp k = Inr (K, lost, cn, cs)"
  shows "distinct (K_nodes K)"
    and "distinct (map fst (K_id_kmer_map K))"
    and "distinct (map snd (K_id_kmer_map K))"
    and "set (K_nodes K) \<subseteq> fst ` set (K_id_kmer_map K) \<union> {SOURCE, SINK}"
proof -
  from assms obtain K2 where b: "build_kmer_graph G pp k = Inr (K2, lost)"
    and c: "clip_dangling_ends K2 = Inr (K, cn, cs)" by (rule create_kmer_graph_Inr)
  note i = build_kmer_graph_ids[OF b]
  note s = clip_loop_spec[OF c[unfolded clip_dangling_ends_def]]
  from s i show "distinct (K_nodes K)" "distinct (map fst (K_id_kmer_map K))"
    "distinct (map snd (K_id_kmer_map K))"
    "set (K_nodes K) \<subseteq> fst ` set (K_id_kmer_map K) \<union> {SOURCE, SINK}"
    by auto
qed


lemma distinct_snd_unique:
  "distinct (map snd xs) \<Longrightarrow> (u, w) \<in> set xs \<Longrightarrow> (v, w) \<in> set xs \<Longrightarrow> u = v"
  by (induction xs) (auto intro: rev_image_eqI)

subsection \<open>Short full-length paths\<close>

lemma set_update_subset: "set (AList.update k v al) \<subseteq> insert (k, v) (set al)"
  by (induction al) auto

lemma convert_path_mono:
  assumes "conv_inv st" and "convert_path sn en k st ps = Inr st'"
  shows "\<exists>ext more. st_id_kmer_map st' = st_id_kmer_map st @ ext
            \<and> st_kmer_paths st' = st_kmer_paths st @ more"
proof -
  obtain path score where ps: "ps = (path, score)" by (cases ps)
  note c = convert_path_Inr[OF assms(2)[unfolded ps]]
  show ?thesis
  proof (cases "int (length path) < k \<and> \<not> (hd path \<in> set sn \<and> last path \<in> set en)")
    case True
    from c(2)[OF True] show ?thesis by simp
  next
    case False
    let ?pre = "if hd path \<in> set sn then [SOURCE] else []"
    from c(3)[OF False] obtain st1 kp where
      l: "kmer_ids_loop st ?pre (path_kmers path k) = (st1, kp)"
      and st': "st' = st1\<lparr>st_kmer_paths := st_kmer_paths st1 @
                      [(if last path \<in> set en then kp @ [SINK] else kp, score)]\<rparr>"
      by blast
    from kmer_ids_loop_spec[OF assms(1), of ?pre "path_kmers path k"] l
    obtain ext where "st_id_kmer_map st1 = st_id_kmer_map st @ ext"
      "st_kmer_paths st1 = st_kmer_paths st" by auto
    with st' show ?thesis by simp
  qed
qed

lemma convert_paths_mono:
  "conv_inv st \<Longrightarrow> convert_paths sn en k st pp = Inr st' \<Longrightarrow>
   \<exists>ext more. st_id_kmer_map st' = st_id_kmer_map st @ ext
      \<and> st_kmer_paths st' = st_kmer_paths st @ more"
proof (induction pp arbitrary: st)
  case Nil
  then show ?case by simp
next
  case (Cons ps pp)
  from Cons.prems(2) obtain st1 where 1: "convert_path sn en k st ps = Inr st1"
    and 2: "convert_paths sn en k st1 pp = Inr st'"
    by (auto split: sum.splits)
  from convert_path_conv_inv[OF Cons.prems(1) 1] have a: "conv_inv st1" by blast
  from convert_path_mono[OF Cons.prems(1) 1] Cons.IH[OF a 2] show ?case by auto
qed

lemma convert_path_short_full:
  assumes "conv_inv st" and "convert_path sn en k st (path, score) = Inr st'"
    and "int (length path) < k" and "hd path \<in> set sn" and "last path \<in> set en"
  shows "\<exists>i. map_of (st_id_kmer_map st') i = Some path
            \<and> ([SOURCE, i, SINK], score) \<in> set (st_kmer_paths st')"
proof -
  note c = convert_path_Inr[OF assms(2)]
  have nb: "\<not> (int (length path) < k \<and> \<not> (hd path \<in> set sn \<and> last path \<in> set en))"
    using assms by simp
  from c(3)[OF nb] assms obtain st1 kp where
    l: "kmer_ids_loop st [SOURCE] [path] = (st1, kp)"
    and st': "st' = st1\<lparr>st_kmer_paths := st_kmer_paths st1 @ [(kp @ [SINK], score)]\<rparr>"
    by (auto simp: path_kmers_def)
  from kmer_ids_loop_spec[OF assms(1), of "[SOURCE]" "[path]"] l
  obtain ids where r: "kp = [SOURCE] @ ids"
    "map (map_of (st_id_kmer_map st1)) ids = map Some [path]" by auto
  from r(2) obtain i where "ids = [i]" "map_of (st_id_kmer_map st1) i = Some path"
    by (cases ids) auto
  with r(1) st' show ?thesis by auto
qed

lemma convert_paths_short_full:
  "conv_inv st \<Longrightarrow> convert_paths sn en k st pp = Inr st' \<Longrightarrow> (path, score) \<in> set pp \<Longrightarrow>
   int (length path) < k \<Longrightarrow> hd path \<in> set sn \<Longrightarrow> last path \<in> set en \<Longrightarrow>
   \<exists>i. map_of (st_id_kmer_map st') i = Some path
      \<and> ([SOURCE, i, SINK], score) \<in> set (st_kmer_paths st')"
proof (induction pp arbitrary: st)
  case Nil
  then show ?case by simp
next
  case (Cons ps pp)
  from Cons.prems(2) obtain st1 where 1: "convert_path sn en k st ps = Inr st1"
    and 2: "convert_paths sn en k st1 pp = Inr st'"
    by (auto split: sum.splits)
  from convert_path_conv_inv[OF Cons.prems(1) 1] have a: "conv_inv st1" by blast
  show ?case
  proof (cases "(path, score) \<in> set pp")
    case True
    from Cons.IH[OF a 2 True Cons.prems(4,5,6)] show ?thesis .
  next
    case False
    with Cons.prems(3) have ps: "ps = (path, score)" by simp
    from convert_path_short_full[OF Cons.prems(1) 1[unfolded ps] Cons.prems(4,5,6)]
    obtain i where i: "map_of (st_id_kmer_map st1) i = Some path"
      "([SOURCE, i, SINK], score) \<in> set (st_kmer_paths st1)" by blast
    from convert_paths_mono[OF a 2] obtain ext more where
      m: "st_id_kmer_map st' = st_id_kmer_map st1 @ ext"
         "st_kmer_paths st' = st_kmer_paths st1 @ more" by blast
    from i(1) have "map_of (st_id_kmer_map st1 @ ext) i = Some path" by (rule map_of_append_Some)
    with i(2) m show ?thesis by (intro exI[of _ i]) (simp del: map_of_append)
  qed
qed

lemma kmer_ids_loop_dict:
  "st_short_partial_path_dict (fst (kmer_ids_loop st kp kmers)) = st_short_partial_path_dict st"
  by (induction kmers arbitrary: st kp) (auto split: option.splits)

lemma convert_path_buckets:
  assumes "buckets_not_full sn en st" and "convert_path sn en k st ps = Inr st'"
  shows "buckets_not_full sn en st'"
proof -
  obtain path score where ps: "ps = (path, score)" by (cases ps)
  note c = convert_path_Inr[OF assms(2)[unfolded ps]]
  show ?thesis
  proof (cases "int (length path) < k \<and> \<not> (hd path \<in> set sn \<and> last path \<in> set en)")
    case True
    let ?d = "st_short_partial_path_dict st"
    let ?l = "int (length path)"
    let ?b = "case map_of ?d ?l of None \<Rightarrow> [] | Some b \<Rightarrow> b"
    have old: "\<forall>ps\<in>set ?b. \<not> (hd (fst ps) \<in> set sn \<and> last (fst ps) \<in> set en)"
    proof (cases "map_of ?d ?l")
      case None
      then show ?thesis by simp
    next
      case (Some b)
      then have "(?l, b) \<in> set ?d" by (rule map_of_SomeD)
      with assms(1) Some show ?thesis by (force simp: buckets_not_full_def)
    qed
    have sub: "set (AList.update ?l (?b @ [(path, score)]) ?d) \<subseteq> insert (?l, ?b @ [(path, score)]) (set ?d)"
      by (rule set_update_subset)
    have "\<not> (hd (fst q) \<in> set sn \<and> last (fst q) \<in> set en)"
      if b: "b \<in> set (AList.update ?l (?b @ [(path, score)]) ?d)" and q: "q \<in> set (snd b)" for b q
    proof (cases "b = (?l, ?b @ [(path, score)])")
      case True
      with q have "q \<in> set ?b \<or> q = (path, score)" by auto
      then show ?thesis
      proof
        assume "q \<in> set ?b"
        with old show ?thesis by blast
      next
        assume "q = (path, score)"
        with \<open>int (length path) < k \<and> \<not> (hd path \<in> set sn \<and> last path \<in> set en)\<close>
        show ?thesis by simp
      qed
    next
      case False
      with b sub have "b \<in> set ?d" by auto
      with assms(1) q show ?thesis unfolding buckets_not_full_def by blast
    qed
    then show ?thesis
      unfolding c(2)[OF True] buckets_not_full_def by simp
  next
    case False
    let ?pre = "if hd path \<in> set sn then [SOURCE] else []"
    from c(3)[OF False] obtain st1 kp where
      l: "kmer_ids_loop st ?pre (path_kmers path k) = (st1, kp)"
      and st': "st' = st1\<lparr>st_kmer_paths := st_kmer_paths st1 @
                      [(if last path \<in> set en then kp @ [SINK] else kp, score)]\<rparr>"
      by blast
    from kmer_ids_loop_dict[of st ?pre "path_kmers path k"] l
    have "st_short_partial_path_dict st1 = st_short_partial_path_dict st" by simp
    with st' assms(1) show ?thesis by (simp add: buckets_not_full_def)
  qed
qed

lemma convert_paths_buckets:
  "buckets_not_full sn en st \<Longrightarrow> convert_paths sn en k st pp = Inr st' \<Longrightarrow>
   buckets_not_full sn en st'"
proof (induction pp arbitrary: st)
  case Nil
  then show ?case by simp
next
  case (Cons ps pp)
  from Cons.prems(2) obtain st1 where 1: "convert_path sn en k st ps = Inr st1"
    and 2: "convert_paths sn en k st1 pp = Inr st'"
    by (auto split: sum.splits)
  from Cons.IH[OF convert_path_buckets[OF Cons.prems(1) 1] 2] show ?case .
qed

lemma clip_loop_keeps:
  "clip_loop K test_nodes clip_nodes clip_score = Inr (K', cn, cs) \<Longrightarrow>
   i \<in> set (K_nodes K) \<Longrightarrow> (K_source K, i) \<in> set (K_edges K) \<Longrightarrow>
   (i, K_sink K) \<in> set (K_edges K) \<Longrightarrow>
   i \<in> set (K_nodes K') \<and> (K_source K, i) \<in> set (K_edges K') \<and> (i, K_sink K) \<in> set (K_edges K')"
proof (induction K test_nodes clip_nodes clip_score rule: clip_loop.induct)
  case (1 K test_nodes clip_nodes clip_score)
  show ?case
  proof (cases "length test_nodes > 0")
    case False
    with "1.prems" show ?thesis by (subst (asm) clip_loop.simps) simp
  next
    case True
    let ?cl = "new_clip_nodes_of K test_nodes"
    let ?test' = "filter (\<lambda>n. n \<notin> set ?cl) (new_test_nodes_of K ?cl)"
    from "1.prems"(1) True obtain s where s: "sum_node_scores K ?cl = Inr s"
      and r: "clip_loop (K_remove_nodes_from K ?cl) ?test' (set_update clip_nodes ?cl)
                (clip_score + s) = Inr (K', cn, cs)"
      by (subst (asm) clip_loop.simps) (auto simp: Let_def split: sum.splits)
    have "0 < K_in_degree K i" "0 < K_out_degree K i"
      using "1.prems"(3,4) by (auto simp: in_degree_pos_iff out_degree_pos_iff)
    then have i: "i \<notin> set ?cl" by (auto simp: new_clip_nodes_of_def)
    have st: "K_source K \<notin> set ?cl" "K_sink K \<notin> set ?cl"
      by (auto simp: new_clip_nodes_of_def)
    from "1.IH"[OF True refl refl refl s r] i st "1.prems"(2,3,4)
    show ?thesis by (simp add: K_remove_nodes_from_simps)
  qed
qed

text \<open>
  C8: a partial path shorter than \<open>k\<close> whose first node is a leaf source and whose last
  node is a leaf sink of the splice graph is turned by the first loop into the path of
  kmer ids \<open>SOURCE\<close>, \<open>i\<close>, \<open>SINK\<close> with one kmer \<open>i\<close>, which is the whole path; no
  bucket of short paths holds the path, and it is not among the lost paths. In the graph
  returned the vertex \<open>i\<close> is there, between \<open>SOURCE\<close> and \<open>SINK\<close>.
\<close>

theorem short_full_length_path_one_kmer:
  assumes "create_kmer_graph G partial_paths k = Inr (K, lost_paths, clip_nodes, clip_score)"
    and "(path, score) \<in> set partial_paths"
    and "int (length path) < k"
    and "hd path \<in> set (fst (get_start_end_nodes G))"
    and "last path \<in> set (snd (get_start_end_nodes G))"
  shows "\<exists>st i.
      convert_paths (fst (get_start_end_nodes G)) (snd (get_start_end_nodes G)) k
        \<lparr>st_kmer_id_map = [], st_id_kmer_map = [], st_kmer_paths = [],
         st_current_id = 0, st_short_partial_path_dict = []\<rparr> partial_paths = Inr st
      \<and> ([SOURCE, i, SINK], score) \<in> set (st_kmer_paths st)
      \<and> (\<forall>b\<in>set (st_short_partial_path_dict st). \<forall>ps\<in>set (snd b). fst ps \<noteq> path)
      \<and> map_of (K_id_kmer_map K) i = Some path
      \<and> i \<in> set (K_nodes K) \<and> (SOURCE, i) \<in> set (K_edges K) \<and> (i, SINK) \<in> set (K_edges K)
      \<and> (\<forall>ps\<in>set lost_paths. fst ps \<noteq> path)"
proof -
  let ?sn = "fst (get_start_end_nodes G)" and ?en = "snd (get_start_end_nodes G)"
  let ?st0 = "\<lparr>st_kmer_id_map = [], st_id_kmer_map = [], st_kmer_paths = [],
         st_current_id = 0, st_short_partial_path_dict = []\<rparr> :: 'a conv_state"
  from assms(1) obtain K2 where b: "build_kmer_graph G partial_paths k = Inr (K2, lost_paths)"
    and cl: "clip_dangling_ends K2 = Inr (K, clip_nodes, clip_score)"
    by (rule create_kmer_graph_Inr)
  from b obtain st K1 kps where
    c: "convert_paths ?sn ?en k ?st0 partial_paths = Inr st"
    and a1: "add_paths \<lparr>K_node = [], K_edges = [], K_id_kmer_map = st_id_kmer_map st,
                K_source = SOURCE, K_sink = SINK\<rparr> (st_kmer_paths st) = Inr K1"
    and sh: "short_paths_loop (st_id_kmer_map st) K1 k [] [] (st_short_partial_path_dict st)
       = Inr (kps, lost_paths)"
    and a2: "add_paths K1 kps = Inr K2"
    by (rule build_kmer_graph_Inr)
  from convert_paths_short_full[OF conv_inv_init c assms(2,3,4,5)]
  obtain i where i: "map_of (st_id_kmer_map st) i = Some path"
    "([SOURCE, i, SINK], score) \<in> set (st_kmer_paths st)" by blast
  have "buckets_not_full ?sn ?en ?st0" by (simp add: buckets_not_full_def)
  from convert_paths_buckets[OF this c] have bn: "buckets_not_full ?sn ?en st" .
  then have nb: "\<forall>b\<in>set (st_short_partial_path_dict st). \<forall>ps\<in>set (snd b). fst ps \<noteq> path"
    using assms(4,5) unfolding buckets_not_full_def by blast
  note s1 = add_paths_spec[OF a1]
  have "single_nodes K1 []" by (simp add: single_nodes_def)
  from short_paths_loop_spec[OF sh this]
  have sn: "single_nodes K1 kps"
    and lost: "set lost_paths \<subseteq> (\<Union>b\<in>set (st_short_partial_path_dict st). set (snd b))"
    by auto
  note s2 = add_paths_spec[OF a2]
  note s3 = add_paths_single_nodes[OF a2 sn]
  from i(2) s1 have "i \<in> set (K_nodes K1)" "(SOURCE, i) \<in> set (K_edges K1)"
    "(i, SINK) \<in> set (K_edges K1)" by force+
  with s3 s1 s2 have k2: "i \<in> set (K_nodes K2)" "(K_source K2, i) \<in> set (K_edges K2)"
    "(i, K_sink K2) \<in> set (K_edges K2)" by simp_all
  from clip_loop_keeps[OF cl[unfolded clip_dangling_ends_def] k2] s1 s2
  have k: "i \<in> set (K_nodes K)" "(SOURCE, i) \<in> set (K_edges K)" "(i, SINK) \<in> set (K_edges K)"
    by simp_all
  from clip_loop_spec[OF cl[unfolded clip_dangling_ends_def]] s1 s2
  have idk: "K_id_kmer_map K = st_id_kmer_map st" by simp
  from lost nb have nl: "\<forall>ps\<in>set lost_paths. fst ps \<noteq> path" by blast
  from c i k nb nl show ?thesis unfolding idk by blast
qed

theorem short_full_length_path_one_kmer_witness:
  "\<exists>K cn cs i. create_kmer_graph G_single [([Exon 0 10], 3)] 2 = Inr (K, [], cn, cs)
      \<and> map_of (K_id_kmer_map K) i = Some [Exon 0 10]
      \<and> i \<in> set (K_nodes K) \<and> (SOURCE, i) \<in> set (K_edges K) \<and> (i, SINK) \<in> set (K_edges K)"
proof -
  have "map_sum id (\<lambda>(K, lost, cn, cs). lost) (create_kmer_graph G_single [([Exon 0 10], 3)] 2)
          = Inr []" by code_simp
  then obtain K cn cs where c: "create_kmer_graph G_single [([Exon 0 10], 3)] 2 = Inr (K, [], cn, cs)"
    by (cases "create_kmer_graph G_single [([Exon 0 10], 3)] 2") auto
  have h2: "([Exon 0 10], 3) \<in> set [([Exon 0 10], 3::real)]" by simp
  have h3: "int (length [Exon 0 10]) < 2" by simp
  have h4: "hd [Exon 0 10] \<in> set (fst (get_start_end_nodes G_single))" by code_simp
  have h5: "last [Exon 0 10] \<in> set (snd (get_start_end_nodes G_single))" by code_simp
  from short_full_length_path_one_kmer[OF c h2 h3 h4 h5] c show ?thesis by blast
qed

subsection \<open>Overlapping kmers along the edges\<close>

lemma kmer_ids_loop_kmers:
  "snd ` set (st_id_kmer_map (fst (kmer_ids_loop st kp kmers)))
     \<subseteq> snd ` set (st_id_kmer_map st) \<union> set kmers"
proof (induction kmers arbitrary: st kp)
  case Nil
  then show ?case by simp
next
  case (Cons kmer kmers)
  show ?case
  proof (cases "map_of (st_kmer_id_map st) kmer")
    case None
    let ?st1 = "st\<lparr>st_kmer_id_map := AList.update kmer (st_current_id st) (st_kmer_id_map st),
                st_id_kmer_map := AList.update (st_current_id st) kmer (st_id_kmer_map st),
                st_current_id := st_current_id st + 1\<rparr>"
    have "snd ` set (st_id_kmer_map ?st1) \<subseteq> insert kmer (snd ` set (st_id_kmer_map st))"
      using set_update_subset[of "st_current_id st" kmer "st_id_kmer_map st"] by auto
    with Cons.IH[of ?st1 "kp @ [st_current_id st]"] None show ?thesis by auto
  next
    case (Some i)
    with Cons.IH[of st "kp @ [i]"] show ?thesis by auto
  qed
qed

lemma kmers_overlap_mono:
  "kmers_overlap idk k u v \<Longrightarrow> kmers_overlap (idk @ ext) k u v"
  by (auto simp: kmers_overlap_def map_add_def split: option.splits)

lemma kmerpath_ok_mono:
  assumes "kmerpath_ok idk k kp"
  shows "kmerpath_ok (idk @ ext) k kp"
proof -
  from assms obtain pre ids post where r: "kp = pre @ ids @ post"
    "pre = [] \<or> pre = [SOURCE]" "post = [] \<or> post = [SINK]" "ids \<noteq> []"
    "list_all (\<lambda>i. map_of idk i \<noteq> None) ids" "successively (kmers_overlap idk k) ids"
    unfolding kmerpath_ok_def by blast
  from r(5) have a: "list_all (\<lambda>i. map_of (idk @ ext) i \<noteq> None) ids"
    by (auto simp: list_all_iff)
  from r(6) have b: "successively (kmers_overlap (idk @ ext) k) ids"
    by (rule successively_mono) (auto intro: kmers_overlap_mono)
  from r(1-4) a b show ?thesis unfolding kmerpath_ok_def by blast
qed

lemma map_of_nth_Some:
  assumes "map (map_of idk) ids = map Some ks" and "j < length ids"
  shows "length ids = length ks" and "map_of idk (ids ! j) = Some (ks ! j)"
proof -
  from assms(1) show len: "length ids = length ks" by (rule map_eq_imp_length_eq)
  from assms(1) have "map (map_of idk) ids ! j = map Some ks ! j" by simp
  with assms(2) len show "map_of idk (ids ! j) = Some (ks ! j)" by simp
qed

lemma overlap_of_chain:
  assumes "map (map_of idk) ids = map Some ks"
    and "\<forall>w\<in>set ks. int (length w) = k"
    and "successively (\<lambda>a b. tl a = butlast b) ks"
  shows "successively (kmers_overlap idk k) ids"
  unfolding successively_conv_nth
proof (intro allI impI)
  fix j assume j: "Suc j < length ids"
  from j have j': "j < length ids" by simp
  note len = map_of_nth_Some(1)[OF assms(1) j']
  note a = map_of_nth_Some(2)[OF assms(1) j']
  note b = map_of_nth_Some(2)[OF assms(1) j]
  from j len assms(2) have l: "int (length (ks ! j)) = k" "int (length (ks ! Suc j)) = k" by auto
  from assms(3) j len have "tl (ks ! j) = butlast (ks ! Suc j)"
    by (simp add: successively_conv_nth)
  with a b l show "kmers_overlap idk k (ids ! j) (ids ! Suc j)"
    by (simp add: kmers_overlap_def)
qed

lemma path_kmers_props:
  assumes "1 \<le> k" and "path \<noteq> []"
  shows "path_kmers path k \<noteq> []"
    and "\<forall>w\<in>set (path_kmers path k). w \<noteq> [] \<and> int (length w) \<le> k"
    and "length (path_kmers path k) = 1 \<or>
         ((\<forall>w\<in>set (path_kmers path k). int (length w) = k)
          \<and> successively (\<lambda>a b. tl a = butlast b) (path_kmers path k))"
proof -
  show "path_kmers path k \<noteq> []"
    using assms get_kmers_windows(1)[of k path] by (auto simp: path_kmers_def)
  show "\<forall>w\<in>set (path_kmers path k). w \<noteq> [] \<and> int (length w) \<le> k"
  proof (cases "int (length path) < k")
    case True
    with assms show ?thesis by (simp add: path_kmers_def)
  next
    case False
    with assms get_kmers_windows(2)[of k path]
    have "\<forall>w\<in>set (get_kmers path k). int (length w) = k" by simp
    with assms(1) have "\<forall>w\<in>set (get_kmers path k). w \<noteq> [] \<and> int (length w) \<le> k"
      by fastforce
    with False show ?thesis by (simp add: path_kmers_def)
  qed
  show "length (path_kmers path k) = 1 \<or>
         ((\<forall>w\<in>set (path_kmers path k). int (length w) = k)
          \<and> successively (\<lambda>a b. tl a = butlast b) (path_kmers path k))"
    using assms get_kmers_windows(2,3)[of k path] by (auto simp: path_kmers_def)
qed

lemma convert_path_ok:
  assumes k: "1 \<le> k" and ci: "conv_inv st" and ok: "kmer_paths_ok k st"
    and c: "convert_path sn en k st ps = Inr st'"
  shows "kmer_paths_ok k st'"
proof -
  obtain path score where ps: "ps = (path, score)" by (cases ps)
  note cc = convert_path_Inr[OF c[unfolded ps]]
  show ?thesis
  proof (cases "int (length path) < k \<and> \<not> (hd path \<in> set sn \<and> last path \<in> set en)")
    case True
    from cc(2)[OF True] ok show ?thesis by (simp add: kmer_paths_ok_def)
  next
    case False
    let ?pre = "if hd path \<in> set sn then [SOURCE] else []"
    let ?post = "if last path \<in> set en then [SINK] else []"
    let ?ks = "path_kmers path k"
    from cc(3)[OF False] obtain st1 kp where
      l: "kmer_ids_loop st ?pre ?ks = (st1, kp)"
      and st': "st' = st1\<lparr>st_kmer_paths := st_kmer_paths st1 @
                      [(if last path \<in> set en then kp @ [SINK] else kp, score)]\<rparr>"
      by blast
    from kmer_ids_loop_spec[OF ci, of ?pre ?ks] l
    obtain ids ext where r: "kp = ?pre @ ids" "st_id_kmer_map st1 = st_id_kmer_map st @ ext"
      "st_kmer_paths st1 = st_kmer_paths st"
      "map (map_of (st_id_kmer_map st1)) ids = map Some ?ks"
      by auto
    note pk = path_kmers_props[OF k cc(1)]
    have len: "length ids = length ?ks" using r(4) by (metis length_map)
    \<comment> \<open>the kmers\<close>
    have "snd ` set (st_id_kmer_map st1) \<subseteq> snd ` set (st_id_kmer_map st) \<union> set ?ks"
      using kmer_ids_loop_kmers[of st ?pre ?ks] l by simp
    moreover have "\<forall>w\<in>snd ` set (st_id_kmer_map st). w \<noteq> [] \<and> int (length w) \<le> k"
      using ok by (simp add: kmer_paths_ok_def kmers_len_ok_def)
    ultimately have lo: "kmers_len_ok (st_id_kmer_map st1) k"
      unfolding kmers_len_ok_def using pk(2) by blast
    \<comment> \<open>the old paths\<close>
    have old: "\<forall>ps\<in>set (st_kmer_paths st). kmerpath_ok (st_id_kmer_map st1) k (fst ps)"
    proof
      fix ps assume "ps \<in> set (st_kmer_paths st)"
      with ok have "kmerpath_ok (st_id_kmer_map st) k (fst ps)" by (simp add: kmer_paths_ok_def)
      then show "kmerpath_ok (st_id_kmer_map st1) k (fst ps)"
        unfolding r(2) by (rule kmerpath_ok_mono)
    qed
    \<comment> \<open>the new path\<close>
    have ne: "ids \<noteq> []" using pk(1) len by auto
    have dom: "list_all (\<lambda>i. map_of (st_id_kmer_map st1) i \<noteq> None) ids"
      using map_of_Some_dom[OF r(4)] by (auto simp: list_all_iff map_of_eq_None_iff)
    have ov: "successively (kmers_overlap (st_id_kmer_map st1) k) ids"
    proof (cases "length ?ks = 1")
      case True
      with len obtain i where "ids = [i]" by (cases ids) auto
      then show ?thesis by simp
    next
      case False
      with pk(3) show ?thesis using overlap_of_chain[OF r(4)] by blast
    qed
    have "(if last path \<in> set en then kp @ [SINK] else kp) = ?pre @ ids @ ?post"
      using r(1) by simp
    with ne dom ov have new: "kmerpath_ok (st_id_kmer_map st1) k
        (if last path \<in> set en then kp @ [SINK] else kp)"
      unfolding kmerpath_ok_def
      by (intro exI[of _ ?pre] exI[of _ ids] exI[of _ ?post]) simp
    have "\<forall>ps\<in>set (st_kmer_paths st'). kmerpath_ok (st_id_kmer_map st') k (fst ps)"
      using old new r(3) unfolding st' by simp
    moreover have "kmers_len_ok (st_id_kmer_map st') k" using lo unfolding st' by simp
    ultimately show ?thesis unfolding kmer_paths_ok_def by simp
  qed
qed

lemma convert_paths_ok:
  "1 \<le> k \<Longrightarrow> conv_inv st \<Longrightarrow> kmer_paths_ok k st \<Longrightarrow> convert_paths sn en k st pp = Inr st' \<Longrightarrow>
   kmer_paths_ok k st'"
proof (induction pp arbitrary: st)
  case Nil
  then show ?case by simp
next
  case (Cons ps pp)
  from Cons.prems(4) obtain st1 where 1: "convert_path sn en k st ps = Inr st1"
    and 2: "convert_paths sn en k st1 pp = Inr st'"
    by (auto split: sum.splits)
  from convert_path_conv_inv[OF Cons.prems(2) 1] have a: "conv_inv st1" by blast
  from convert_path_ok[OF Cons.prems(1,2,3) 1] have b: "kmer_paths_ok k st1" .
  from Cons.IH[OF Cons.prems(1) a b 2] show ?case .
qed

lemma successively_zip:
  assumes "successively P xs" and "(u, v) \<in> set (zip xs (tl xs))"
  shows "P u v"
proof -
  from assms(2) obtain n where n: "xs ! n = u" "tl xs ! n = v" "n < length xs" "n < length (tl xs)"
    by (auto simp: in_set_zip)
  from n(4) have "Suc n < length xs" by simp
  with assms(1) have "P (xs ! n) (xs ! Suc n)" by (simp add: successively_conv_nth)
  with n show ?thesis by (simp add: nth_tl)
qed

lemma kmerpath_ok_edges:
  assumes "kmerpath_ok idk k kp"
  shows "successively (edge_ok idk k) kp"
proof -
  from assms obtain pre ids post where r: "kp = pre @ ids @ post"
    "pre = [] \<or> pre = [SOURCE]" "post = [] \<or> post = [SINK]" "ids \<noteq> []"
    "list_all (\<lambda>i. map_of idk i \<noteq> None) ids" "successively (kmers_overlap idk k) ids"
    unfolding kmerpath_ok_def by blast
  from r(6) have a: "successively (edge_ok idk k) ids"
    by (rule successively_mono) (simp add: edge_ok_def)
  from r(4,5) have h: "map_of idk (hd ids) \<noteq> None" and l: "map_of idk (last ids) \<noteq> None"
    by (auto simp: list_all_iff)
  have b: "successively (edge_ok idk k) (ids @ post)"
    using r(3) a l by (auto simp: successively_append_iff edge_ok_def)
  have "hd (ids @ post) = hd ids" using r(4) by simp
  with r(2) b h have "successively (edge_ok idk k) (pre @ (ids @ post))"
    by (auto simp: successively_append_iff edge_ok_def)
  with r(1) show ?thesis by simp
qed

lemma build_kmer_graph_edges:
  assumes k: "1 \<le> k" and b: "build_kmer_graph G pp k = Inr (K, lost)"
  shows "\<forall>e\<in>set (K_edges K). edge_ok (K_id_kmer_map K) k (fst e) (snd e)"
    and "kmers_len_ok (K_id_kmer_map K) k"
    and "map_of (K_id_kmer_map K) SOURCE = None" and "map_of (K_id_kmer_map K) SINK = None"
proof -
  let ?st0 = "\<lparr>st_kmer_id_map = [], st_id_kmer_map = [], st_kmer_paths = [],
        st_current_id = 0, st_short_partial_path_dict = []\<rparr> :: 'a conv_state"
  from b obtain st K1 kps where
    c: "convert_paths (fst (get_start_end_nodes G)) (snd (get_start_end_nodes G)) k ?st0 pp = Inr st"
    and a1: "add_paths \<lparr>K_node = [], K_edges = [], K_id_kmer_map = st_id_kmer_map st,
                K_source = SOURCE, K_sink = SINK\<rparr> (st_kmer_paths st) = Inr K1"
    and sh: "short_paths_loop (st_id_kmer_map st) K1 k [] [] (st_short_partial_path_dict st)
       = Inr (kps, lost)"
    and a2: "add_paths K1 kps = Inr K"
    by (rule build_kmer_graph_Inr)
  from convert_paths_conv_inv[OF conv_inv_init c] have ci: "conv_inv st" by blast
  have "kmer_paths_ok k ?st0" by (simp add: kmer_paths_ok_def kmers_len_ok_def)
  from convert_paths_ok[OF k conv_inv_init this c] have ok: "kmer_paths_ok k st" .
  note s1 = add_paths_spec[OF a1]
  note s2 = add_paths_spec[OF a2]
  have "single_nodes K1 []" by (simp add: single_nodes_def)
  from short_paths_loop_spec[OF sh this] have sn: "single_nodes K1 kps" by blast
  note s3 = add_paths_single_nodes[OF a2 sn]
  have idk: "K_id_kmer_map K = st_id_kmer_map st" using s1 s2 by simp
  show "kmers_len_ok (K_id_kmer_map K) k" using ok unfolding idk kmer_paths_ok_def by simp
  show "\<forall>e\<in>set (K_edges K). edge_ok (K_id_kmer_map K) k (fst e) (snd e)"
  proof
    fix e assume "e \<in> set (K_edges K)"
    with s3(2) s1 obtain ps where ps: "ps \<in> set (st_kmer_paths st)"
      "e \<in> set (zip (fst ps) (tl (fst ps)))" by auto
    from ps(1) ok have "kmerpath_ok (st_id_kmer_map st) k (fst ps)"
      by (simp add: kmer_paths_ok_def)
    then have "successively (edge_ok (st_id_kmer_map st) k) (fst ps)" by (rule kmerpath_ok_edges)
    from successively_zip[OF this, of "fst e" "snd e"] ps(2)
    show "edge_ok (K_id_kmer_map K) k (fst e) (snd e)" unfolding idk by simp
  qed
  show "map_of (K_id_kmer_map K) SOURCE = None"
  proof (rule ccontr)
    assume "map_of (K_id_kmer_map K) SOURCE \<noteq> None"
    then obtain w where "map_of (st_id_kmer_map st) SOURCE = Some w" unfolding idk by auto
    from conv_inv_ids(2)[OF ci this] show False by simp
  qed
  show "map_of (K_id_kmer_map K) SINK = None"
  proof (rule ccontr)
    assume "map_of (K_id_kmer_map K) SINK \<noteq> None"
    then obtain w where "map_of (st_id_kmer_map st) SINK = Some w" unfolding idk by auto
    from conv_inv_ids(3)[OF ci this] show False by simp
  qed
qed

lemma walk_interior:
  assumes "map_of idk SOURCE = None" and "map_of idk SINK = None"
  shows "successively (edge_ok idk k) (x # ids @ [SINK]) \<Longrightarrow>
    list_all (\<lambda>i. map_of idk i \<noteq> None) ids \<and> successively (kmers_overlap idk k) ids"
proof (induction ids arbitrary: x)
  case Nil
  then show ?case by simp
next
  case (Cons u rest)
  from Cons.prems have xu: "edge_ok idk k x u"
    and tail: "successively (edge_ok idk k) (u # rest @ [SINK])" by simp_all
  from Cons.IH[OF tail] have ih: "list_all (\<lambda>i. map_of idk i \<noteq> None) rest"
    "successively (kmers_overlap idk k) rest" by simp_all
  from tail have "edge_ok idk k u (hd (rest @ [SINK]))" by (cases rest) simp_all
  then have "u = SOURCE \<or> map_of idk u \<noteq> None"
    by (auto simp: edge_ok_def kmers_overlap_def split: option.splits)
  moreover from xu have "u = SINK \<or> map_of idk u \<noteq> None"
    by (auto simp: edge_ok_def kmers_overlap_def split: option.splits)
  moreover have "SOURCE \<noteq> SINK" by (simp add: SOURCE_def SINK_def)
  ultimately have u: "map_of idk u \<noteq> None" by auto
  have "successively (kmers_overlap idk k) (u # rest)"
  proof (cases rest)
    case Nil
    then show ?thesis by simp
  next
    case (Cons v r)
    with tail have "edge_ok idk k u v" by simp
    moreover from ih(1) Cons have "map_of idk v \<noteq> None" by simp
    ultimately have "kmers_overlap idk k u v"
      using u assms by (auto simp: edge_ok_def)
    with ih(2) Cons show ?thesis by simp
  qed
  with u ih(1) show ?case by simp
qed

lemma overlap_chain_kmers:
  assumes m: "map (map_of idk) ids = map Some ks"
    and ov: "successively (kmers_overlap idk k) ids"
  shows "successively (\<lambda>a b. tl a = butlast b) ks"
    and "2 \<le> length ids \<Longrightarrow> \<forall>w\<in>set ks. int (length w) = k"
proof -
  have pair: "int (length (ks ! j)) = k \<and> int (length (ks ! Suc j)) = k
               \<and> tl (ks ! j) = butlast (ks ! Suc j)" if j: "Suc j < length ids" for j
  proof -
    from j have j': "j < length ids" by simp
    from ov j have "kmers_overlap idk k (ids ! j) (ids ! Suc j)"
      by (simp add: successively_conv_nth)
    with map_of_nth_Some(2)[OF m j'] map_of_nth_Some(2)[OF m j]
    show ?thesis by (simp add: kmers_overlap_def)
  qed
  have len: "length ids = length ks" using m by (rule map_eq_imp_length_eq)
  show "successively (\<lambda>a b. tl a = butlast b) ks"
    unfolding successively_conv_nth using pair len by simp
  show "\<forall>w\<in>set ks. int (length w) = k" if two: "2 \<le> length ids"
  proof
    fix w assume "w \<in> set ks"
    then obtain j where j: "j < length ks" "w = ks ! j" by (auto simp: in_set_conv_nth)
    show "int (length w) = k"
    proof (cases "Suc j < length ids")
      case True
      with pair[OF True] j show ?thesis by simp
    next
      case False
      with j len two obtain j0 where "j = Suc j0" by (cases j) auto
      with j len pair[of j0] show ?thesis by simp
    qed
  qed
qed

subsection \<open>Scores of the vertices\<close>

lemma K_score_update_score:
  "K_score (K_update_attrs K n (\<lambda>a. a\<lparr>NODE_SCORE := NODE_SCORE a + s\<rparr>)) m
     = (if m = n \<and> n \<in> set (K_nodes K) then K_score K m + s else K_score K m)"
proof (cases "map_of (K_node K) n")
  case None
  then have "n \<notin> set (K_nodes K)" by (simp add: K_nodes_def map_of_eq_None_iff)
  with None show ?thesis
    by (simp add: K_score_def K_update_attrs_def map_of_map_entry)
next
  case (Some a)
  then have "n \<in> set (K_nodes K)"
    by (auto simp: K_nodes_def dest: map_of_SomeD intro: rev_image_eqI)
  with Some show ?thesis
    by (simp add: K_score_def K_update_attrs_def map_of_map_entry)
qed

lemma K_score_update_other:
  "\<forall>a. NODE_SCORE (f a) = NODE_SCORE a \<Longrightarrow> K_score (K_update_attrs K n f) m = K_score K m"
  by (simp add: K_score_def K_update_attrs_def map_of_map_entry split: option.splits)

lemma K_score_add_node: "K_score (K_add_node_if_absent K n) m = K_score K m"
proof (cases "n \<in> set (K_nodes K)")
  case True
  then show ?thesis by (simp add: K_add_node_if_absent_def)
next
  case False
  then have "map_of (K_node K) n = None" by (simp add: K_nodes_def map_of_eq_None_iff)
  with False show ?thesis
    by (simp add: K_score_def K_add_node_if_absent_def map_add_def init_node_attrs_def
        split: option.splits)
qed

lemma K_score_add_edge: "K_score (K_add_edge K u v) m = K_score K m"
  by (simp add: K_score_def K_add_edge_def)

lemma add_path_loop_score:
  "add_path_loop K from_id rest score = (K', l) \<Longrightarrow>
   K_score K' m = K_score K m + score * real (count_list rest m)"
proof (induction rest arbitrary: K from_id)
  case Nil
  then show ?case by simp
next
  case (Cons to_id rest)
  let ?K1 = "K_add_edge (K_update_attrs (K_add_node_if_absent K to_id) to_id
               (\<lambda>a. a\<lparr>NODE_SCORE := NODE_SCORE a + score\<rparr>)) from_id to_id"
  from Cons.prems have "add_path_loop ?K1 to_id rest score = (K', l)" by (simp add: Let_def)
  from Cons.IH[OF this] have "K_score K' m = K_score ?K1 m + score * real (count_list rest m)" .
  moreover have "K_score ?K1 m = K_score K m + (if m = to_id then score else 0)"
    by (simp add: K_score_add_edge K_score_update_score K_score_add_node
        K_add_node_if_absent_simps(1))
  ultimately show ?case by (simp add: algebra_simps)
qed

lemma add_path_score:
  assumes "add_path K path score = Inr K'"
  shows "K_score K' m = K_score K m + score * real (count_list path m)"
proof -
  from assms obtain from_id rest where p: "path = from_id # rest"
    by (cases path) (auto simp: add_path_def)
  let ?K0 = "K_update_attrs (K_add_node_if_absent K from_id) from_id
               (\<lambda>a. a\<lparr>NODE_SCORE := NODE_SCORE a + score\<rparr>)"
  let ?K1 = "K_update_attrs ?K0 from_id (\<lambda>a. a\<lparr>SMOOTH_REV := SMOOTH_REV a + score\<rparr>)"
  obtain K2 l where l: "add_path_loop ?K1 from_id rest score = (K2, l)"
    by (cases "add_path_loop ?K1 from_id rest score")
  with assms p have K': "K' = K_update_attrs K2 l (\<lambda>a. a\<lparr>SMOOTH_FWD := SMOOTH_FWD a + score\<rparr>)"
    by (simp add: add_path_def Let_def)
  have 1: "K_score ?K1 m = K_score K m + (if m = from_id then score else 0)"
    by (simp add: K_score_update_other K_score_update_score K_score_add_node
        K_add_node_if_absent_simps(1))
  have 2: "K_score K2 m = K_score ?K1 m + score * real (count_list rest m)"
    using l by (rule add_path_loop_score)
  have 3: "K_score K' m = K_score K2 m" unfolding K' by (simp add: K_score_update_other)
  from 1 2 3 p show ?thesis by (simp add: algebra_simps)
qed

lemma add_paths_score:
  "add_paths K paths = Inr K' \<Longrightarrow>
   K_score K' m = K_score K m + (\<Sum>ps\<leftarrow>paths. snd ps * real (count_list (fst ps) m))"
proof (induction paths arbitrary: K)
  case Nil
  then show ?case by simp
next
  case (Cons ps paths)
  from Cons.prems obtain K1 where 1: "add_path K (fst ps) (snd ps) = Inr K1"
    and 2: "add_paths K1 paths = Inr K'" by (auto split: sum.splits)
  from add_path_score[OF 1, of m] Cons.IH[OF 2] show ?case by simp
qed

lemma map_of_filter_key:
  "P k \<Longrightarrow> map_of (filter (\<lambda>p. P (fst p)) xs) k = map_of xs k"
  by (induction xs) auto

lemma clip_loop_score:
  "clip_loop K test_nodes clip_nodes clip_score = Inr (K', cn, cs) \<Longrightarrow>
   m \<in> set (K_nodes K') \<Longrightarrow> map_of (K_node K') m = map_of (K_node K) m"
proof (induction K test_nodes clip_nodes clip_score rule: clip_loop.induct)
  case (1 K test_nodes clip_nodes clip_score)
  show ?case
  proof (cases "length test_nodes > 0")
    case False
    with "1.prems" show ?thesis by (subst (asm) clip_loop.simps) simp
  next
    case True
    let ?cl = "new_clip_nodes_of K test_nodes"
    let ?test' = "filter (\<lambda>n. n \<notin> set ?cl) (new_test_nodes_of K ?cl)"
    from "1.prems"(1) True obtain s where s: "sum_node_scores K ?cl = Inr s"
      and r: "clip_loop (K_remove_nodes_from K ?cl) ?test' (set_update clip_nodes ?cl)
                (clip_score + s) = Inr (K', cn, cs)"
      by (subst (asm) clip_loop.simps) (auto simp: Let_def split: sum.splits)
    from clip_loop_spec[OF r] "1.prems"(2) have "m \<in> set (K_nodes (K_remove_nodes_from K ?cl))"
      by auto
    then have "m \<notin> set ?cl" by (simp add: K_remove_nodes_from_simps)
    then have "map_of (K_node (K_remove_nodes_from K ?cl)) m = map_of (K_node K) m"
      by (simp add: K_remove_nodes_from_def map_of_filter_key[of "\<lambda>n. n \<notin> set ?cl"])
    with "1.IH"[OF True refl refl refl s r "1.prems"(2)] show ?thesis by simp
  qed
qed

lemma map_map_of_append:
  "map (map_of idk) ids = map Some ks \<Longrightarrow> map (map_of (idk @ ext)) ids = map Some ks"
proof (induction ids arbitrary: ks)
  case Nil
  then show ?case by simp
next
  case (Cons i ids)
  then obtain w ws where ks: "ks = w # ws" by (cases ks) auto
  with Cons.prems have a: "map_of idk i = Some w" and b: "map (map_of idk) ids = map Some ws"
    by auto
  from a have "map_of (idk @ ext) i = Some w" by (rule map_of_append_Some)
  with Cons.IH[OF b] ks show ?case by (simp del: map_of_append)
qed

lemma path_rel_mono: "path_rel idk k kps ps \<Longrightarrow> path_rel (idk @ ext) k kps ps"
  unfolding path_rel_def by (blast intro: map_map_of_append)

lemma convert_path_rel:
  assumes "conv_inv st" and "convert_path sn en k st ps = Inr st'"
  shows "deferred sn en k (fst ps) \<Longrightarrow> st_kmer_paths st' = st_kmer_paths st"
    and "\<not> deferred sn en k (fst ps) \<Longrightarrow>
         st_short_partial_path_dict st' = st_short_partial_path_dict st
         \<and> (\<exists>kps. st_kmer_paths st' = st_kmer_paths st @ [kps]
                \<and> path_rel (st_id_kmer_map st') k kps ps)"
proof -
  obtain path score where ps: "ps = (path, score)" by (cases ps)
  note c = convert_path_Inr[OF assms(2)[unfolded ps]]
  show "st_kmer_paths st' = st_kmer_paths st" if "deferred sn en k (fst ps)"
    using c(2) that unfolding deferred_def ps by simp
  show "st_short_partial_path_dict st' = st_short_partial_path_dict st
         \<and> (\<exists>kps. st_kmer_paths st' = st_kmer_paths st @ [kps]
                \<and> path_rel (st_id_kmer_map st') k kps ps)"
    if nd: "\<not> deferred sn en k (fst ps)"
  proof -
    let ?pre = "if hd path \<in> set sn then [SOURCE] else []"
    let ?post = "if last path \<in> set en then [SINK] else []"
    from nd have "\<not> (int (length path) < k \<and> \<not> (hd path \<in> set sn \<and> last path \<in> set en))"
      unfolding deferred_def ps by simp
    from c(3)[OF this] obtain st1 kp where
      l: "kmer_ids_loop st ?pre (path_kmers path k) = (st1, kp)"
      and st': "st' = st1\<lparr>st_kmer_paths := st_kmer_paths st1 @
                      [(if last path \<in> set en then kp @ [SINK] else kp, score)]\<rparr>"
      by blast
    from kmer_ids_loop_spec[OF assms(1), of ?pre "path_kmers path k"] l
    obtain ids where r: "kp = ?pre @ ids" "st_kmer_paths st1 = st_kmer_paths st"
      "st_short_partial_path_dict st1 = st_short_partial_path_dict st"
      "map (map_of (st_id_kmer_map st1)) ids = map Some (path_kmers path k)"
      by auto
    have "(if last path \<in> set en then kp @ [SINK] else kp) = ?pre @ ids @ ?post"
      using r(1) by simp
    with r(4) have "path_rel (st_id_kmer_map st1) k
        (if last path \<in> set en then kp @ [SINK] else kp, score) (path, score)"
      unfolding path_rel_def
      by (simp only: fst_conv snd_conv) (intro conjI refl exI[of _ ?pre] exI[of _ ids] exI[of _ ?post], auto)
    with r(2,3) show ?thesis unfolding st' ps by simp
  qed
qed

lemma convert_paths_rel:
  "conv_inv st \<Longrightarrow> convert_paths sn en k st pp = Inr st' \<Longrightarrow>
   \<exists>new. st_kmer_paths st' = st_kmer_paths st @ new
      \<and> list_all2 (path_rel (st_id_kmer_map st') k) new
           (filter (\<lambda>ps. \<not> deferred sn en k (fst ps)) pp)"
proof (induction pp arbitrary: st)
  case Nil
  then show ?case by simp
next
  case (Cons ps pp)
  from Cons.prems(2) obtain st1 where 1: "convert_path sn en k st ps = Inr st1"
    and 2: "convert_paths sn en k st1 pp = Inr st'"
    by (auto split: sum.splits)
  from convert_path_conv_inv[OF Cons.prems(1) 1] have a: "conv_inv st1" by blast
  from Cons.IH[OF a 2] obtain new2 where n2: "st_kmer_paths st' = st_kmer_paths st1 @ new2"
    "list_all2 (path_rel (st_id_kmer_map st') k) new2
       (filter (\<lambda>ps. \<not> deferred sn en k (fst ps)) pp)" by blast
  from convert_paths_mono[OF a 2] obtain ext where ext: "st_id_kmer_map st' = st_id_kmer_map st1 @ ext"
    by blast
  note cr = convert_path_rel[OF Cons.prems(1) 1]
  show ?case
  proof (cases "deferred sn en k (fst ps)")
    case True
    with cr(1) n2 show ?thesis by simp
  next
    case False
    from cr(2)[OF False] obtain kps where k1: "st_kmer_paths st1 = st_kmer_paths st @ [kps]"
      "path_rel (st_id_kmer_map st1) k kps ps" by blast
    from k1(2) have "path_rel (st_id_kmer_map st') k kps ps"
      unfolding ext by (rule path_rel_mono)
    with n2 k1(1) False show ?thesis by (intro exI[of _ "kps # new2"]) simp
  qed
qed

lemma convert_paths_no_deferred:
  "conv_inv st \<Longrightarrow> convert_paths sn en k st pp = Inr st' \<Longrightarrow>
   \<forall>ps\<in>set pp. \<not> deferred sn en k (fst ps) \<Longrightarrow>
   st_short_partial_path_dict st' = st_short_partial_path_dict st"
proof (induction pp arbitrary: st)
  case Nil
  then show ?case by simp
next
  case (Cons ps pp)
  from Cons.prems(2) obtain st1 where 1: "convert_path sn en k st ps = Inr st1"
    and 2: "convert_paths sn en k st1 pp = Inr st'"
    by (auto split: sum.splits)
  from convert_path_conv_inv[OF Cons.prems(1) 1] have a: "conv_inv st1" by blast
  from convert_path_rel(2)[OF Cons.prems(1) 1] Cons.prems(3)
  have "st_short_partial_path_dict st1 = st_short_partial_path_dict st" by simp
  with Cons.IH[OF a 2] Cons.prems(3) show ?case by simp
qed

lemma count_ids:
  assumes "distinct (map snd idk)" and "map_of idk i = Some w"
  shows "map (map_of idk) ids = map Some ks \<Longrightarrow> count_list ids i = count_list ks w"
proof (induction ids arbitrary: ks)
  case Nil
  then show ?case by simp
next
  case (Cons j ids)
  then obtain x xs where ks: "ks = x # xs" by (cases ks) auto
  with Cons.prems have a: "map_of idk j = Some x" and b: "map (map_of idk) ids = map Some xs"
    by auto
  have "j = i \<longleftrightarrow> x = w"
  proof
    assume "j = i" with a assms(2) show "x = w" by simp
  next
    assume "x = w"
    with a have "(j, w) \<in> set idk" by (auto dest: map_of_SomeD)
    moreover from assms(2) have "(i, w) \<in> set idk" by (rule map_of_SomeD)
    ultimately show "j = i" using assms(1) by (rule distinct_snd_unique[rotated])
  qed
  with Cons.IH[OF b] ks show ?case by simp
qed

lemma path_rel_count:
  assumes "conv_inv st" and "path_rel (st_id_kmer_map st) k kps ps"
    and "map_of (st_id_kmer_map st) i = Some w"
  shows "count_list (fst kps) i = count_list (path_kmers (fst ps) k) w"
proof -
  from assms(2) obtain pre ids post where r: "fst kps = pre @ ids @ post"
    "set pre \<subseteq> {SOURCE}" "set post \<subseteq> {SINK}"
    "map (map_of (st_id_kmer_map st)) ids = map Some (path_kmers (fst ps) k)"
    unfolding path_rel_def by blast
  from conv_inv_ids(2,3)[OF assms(1,3)] r(2,3) have "i \<notin> set pre" "i \<notin> set post" by auto
  then have "count_list (fst kps) i = count_list ids i" unfolding r(1) by simp
  also have "\<dots> = count_list (path_kmers (fst ps) k) w"
    using assms(1,3) r(4) by (intro count_ids) (simp_all add: conv_inv_def)
  finally show ?thesis .
qed

lemma sum_list_all2:
  "list_all2 R xs ys \<Longrightarrow> (\<And>x y. R x y \<Longrightarrow> f x = g y) \<Longrightarrow>
   sum_list (map f xs) = (sum_list (map g ys) :: real)"
  by (induction rule: list_all2_induct) simp_all

lemma build_kmer_graph_score:
  assumes b: "build_kmer_graph G pp k = Inr (K, lost)"
    and nd: "\<forall>ps\<in>set pp. \<not> deferred (fst (get_start_end_nodes G)) (snd (get_start_end_nodes G)) k (fst ps)"
    and w: "map_of (K_id_kmer_map K) i = Some w"
  shows "K_score K i = (\<Sum>ps\<leftarrow>pp. snd ps * real (count_list (path_kmers (fst ps) k) w))"
proof -
  let ?sn = "fst (get_start_end_nodes G)" and ?en = "snd (get_start_end_nodes G)"
  let ?st0 = "\<lparr>st_kmer_id_map = [], st_id_kmer_map = [], st_kmer_paths = [],
        st_current_id = 0, st_short_partial_path_dict = []\<rparr> :: 'a conv_state"
  let ?K0 = "\<lambda>st. \<lparr>K_node = [], K_edges = [], K_id_kmer_map = st_id_kmer_map st,
                K_source = SOURCE, K_sink = SINK\<rparr> :: 'a kmer_graph"
  from b obtain st K1 kps where
    c: "convert_paths ?sn ?en k ?st0 pp = Inr st"
    and a1: "add_paths (?K0 st) (st_kmer_paths st) = Inr K1"
    and sh: "short_paths_loop (st_id_kmer_map st) K1 k [] [] (st_short_partial_path_dict st)
       = Inr (kps, lost)"
    and a2: "add_paths K1 kps = Inr K"
    by (rule build_kmer_graph_Inr)
  from convert_paths_conv_inv[OF conv_inv_init c] have ci: "conv_inv st" by blast
  from convert_paths_no_deferred[OF conv_inv_init c nd]
  have "st_short_partial_path_dict st = []" by simp
  with sh have "kps = []" by simp
  with a2 have K: "K = K1" by simp
  from add_paths_spec[OF a1] have idk: "K_id_kmer_map K = st_id_kmer_map st" unfolding K by simp
  from convert_paths_rel[OF conv_inv_init c] nd
  have rel: "list_all2 (path_rel (st_id_kmer_map st) k) (st_kmer_paths st) pp"
    by (simp add: filter_id_conv)
  have "K_score K i = K_score (?K0 st) i
          + (\<Sum>kps\<leftarrow>st_kmer_paths st. snd kps * real (count_list (fst kps) i))"
    unfolding K using a1 by (rule add_paths_score)
  also have "K_score (?K0 st) i = 0" by (simp add: K_score_def)
  also have "(\<Sum>kps\<leftarrow>st_kmer_paths st. snd kps * real (count_list (fst kps) i))
       = (\<Sum>ps\<leftarrow>pp. snd ps * real (count_list (path_kmers (fst ps) k) w))"
  proof (rule sum_list_all2[OF rel])
    fix x y assume r: "path_rel (st_id_kmer_map st) k x y"
    from path_rel_count[OF ci r w[unfolded idk]] r
    show "snd x * real (count_list (fst x) i)
            = snd y * real (count_list (path_kmers (fst y) k) w)"
      by (simp add: path_rel_def)
  qed
  finally show ?thesis by simp
qed

lemma create_kmer_graph_score:
  assumes c: "create_kmer_graph G pp k = Inr (K, lost, cn, cs)"
    and nd: "\<forall>ps\<in>set pp. \<not> deferred (fst (get_start_end_nodes G)) (snd (get_start_end_nodes G)) k (fst ps)"
    and w: "map_of (K_id_kmer_map K) i = Some w"
    and a: "map_of (K_node K) i = Some a"
  shows "NODE_SCORE a = (\<Sum>ps\<leftarrow>pp. snd ps * real (count_list (path_kmers (fst ps) k) w))"
proof -
  from c obtain K2 where b: "build_kmer_graph G pp k = Inr (K2, lost)"
    and cl: "clip_dangling_ends K2 = Inr (K, cn, cs)" by (rule create_kmer_graph_Inr)
  note s = clip_loop_spec[OF cl[unfolded clip_dangling_ends_def]]
  from a have "i \<in> set (K_nodes K)"
    by (auto simp: K_nodes_def dest: map_of_SomeD intro: rev_image_eqI)
  from clip_loop_score[OF cl[unfolded clip_dangling_ends_def] this] a
  have "map_of (K_node K2) i = Some a" by simp
  then have "K_score K2 i = NODE_SCORE a" by (simp add: K_score_def)
  moreover from s w have "map_of (K_id_kmer_map K2) i = Some w" by simp
  from build_kmer_graph_score[OF b nd this]
  have "K_score K2 i = (\<Sum>ps\<leftarrow>pp. snd ps * real (count_list (path_kmers (fst ps) k) w))" .
  ultimately show ?thesis by simp
qed


text \<open>
  C4: in the graph that \<open>create_kmer_graph\<close> returns no vertex occurs twice, every
  vertex is one of the two sentinels or the id of a kmer, no id has two kmers and no kmer
  has two ids; so two vertices with the same kmer tuple are the same vertex. When no
  path is sent to a bucket of short paths, the score of the vertex of a kmer is the sum,
  over all partial paths, of the score of the path times the number of times the kmer
  occurs among the kmers of the path. In particular, for the two paths
  (0,10), (20,30), (60,70) and (0,10), (20,30) with scores \<open>s1\<close> and \<open>s2\<close> at \<open>k = 2\<close>,
  the window (0,10), (20,30) they share is the one vertex 0, and its score is \<open>s1 + s2\<close>.
\<close>

theorem create_kmer_graph_unique_kmers:
  "(create_kmer_graph G partial_paths k = Inr (K, lost_paths, clip_nodes, clip_score) \<longrightarrow>
      distinct (K_nodes K)
      \<and> set (K_nodes K) \<subseteq> fst ` set (K_id_kmer_map K) \<union> {SOURCE, SINK}
      \<and> distinct (map fst (K_id_kmer_map K))
      \<and> distinct (map snd (K_id_kmer_map K))
      \<and> (\<forall>u v kmer. map_of (K_id_kmer_map K) u = Some kmer
             \<and> map_of (K_id_kmer_map K) v = Some kmer \<longrightarrow> u = v)
      \<and> ((\<forall>ps\<in>set partial_paths.
              \<not> deferred (fst (get_start_end_nodes G)) (snd (get_start_end_nodes G)) k (fst ps))
           \<longrightarrow> (\<forall>i w a. map_of (K_id_kmer_map K) i = Some w \<and> map_of (K_node K) i = Some a \<longrightarrow>
                  NODE_SCORE a =
                    (\<Sum>ps\<leftarrow>partial_paths.
                        snd ps * real (count_list (path_kmers (fst ps) k) w)))))
   \<and> map_sum id (\<lambda>(K, lost, cn, cs).
          (K_id_kmer_map K, K_nodes K, map_option NODE_SCORE (map_of (K_node K) 0), lost, cn))
        (create_kmer_graph G_alt
           [([Exon 0 10, Exon 20 30, Exon 60 70], s1), ([Exon 0 10, Exon 20 30], s2)] 2)
      = Inr ([(0, [Exon 0 10, Exon 20 30]), (1, [Exon 20 30, Exon 60 70])],
             [- 1, 0, 1, - 2], Some (s1 + s2), [], [])"
proof (intro conjI impI)
  assume c: "create_kmer_graph G partial_paths k = Inr (K, lost_paths, clip_nodes, clip_score)"
  note i = create_kmer_graph_ids[OF c]
  show "distinct (K_nodes K)" by (rule i(1))
  show "set (K_nodes K) \<subseteq> fst ` set (K_id_kmer_map K) \<union> {SOURCE, SINK}" by (rule i(4))
  show "distinct (map fst (K_id_kmer_map K))" by (rule i(2))
  show "distinct (map snd (K_id_kmer_map K))" by (rule i(3))
  show "\<forall>u v kmer. map_of (K_id_kmer_map K) u = Some kmer
             \<and> map_of (K_id_kmer_map K) v = Some kmer \<longrightarrow> u = v"
  proof (intro allI impI)
    fix u v kmer
    assume "map_of (K_id_kmer_map K) u = Some kmer \<and> map_of (K_id_kmer_map K) v = Some kmer"
    then have "(u, kmer) \<in> set (K_id_kmer_map K)" "(v, kmer) \<in> set (K_id_kmer_map K)"
      by (auto dest: map_of_SomeD)
    with i(3) show "u = v" by (rule distinct_snd_unique)
  qed
  assume nd: "\<forall>ps\<in>set partial_paths.
      \<not> deferred (fst (get_start_end_nodes G)) (snd (get_start_end_nodes G)) k (fst ps)"
  show "\<forall>i w a. map_of (K_id_kmer_map K) i = Some w \<and> map_of (K_node K) i = Some a \<longrightarrow>
          NODE_SCORE a =
            (\<Sum>ps\<leftarrow>partial_paths. snd ps * real (count_list (path_kmers (fst ps) k) w))"
    using create_kmer_graph_score[OF c nd] by blast
next
  show "map_sum id (\<lambda>(K, lost, cn, cs).
          (K_id_kmer_map K, K_nodes K, map_option NODE_SCORE (map_of (K_node K) 0), lost, cn))
        (create_kmer_graph G_alt
           [([Exon 0 10, Exon 20 30, Exon 60 70], s1), ([Exon 0 10, Exon 20 30], s2)] 2)
      = Inr ([(0, [Exon 0 10, Exon 20 30]), (1, [Exon 20 30, Exon 60 70])],
             [- 1, 0, 1, - 2], Some (s1 + s2), [], [])"
    by code_simp simp
qed

theorem create_kmer_graph_unique_kmers_witness:
  "\<exists>K lost cn cs a. create_kmer_graph G_alt pp_shared 2 = Inr (K, lost, cn, cs)
      \<and> distinct (K_nodes K) \<and> distinct (map snd (K_id_kmer_map K))
      \<and> map_of (K_id_kmer_map K) 0 = Some [Exon 0 10, Exon 20 30]
      \<and> map_of (K_node K) 0 = Some a \<and> NODE_SCORE a = 7"
proof -
  have ev: "map_sum id (\<lambda>(K, lost, cn, cs).
              (map_of (K_id_kmer_map K) 0, map_of (K_node K) 0 \<noteq> None))
              (create_kmer_graph G_alt pp_shared 2)
            = Inr (Some [Exon 0 10, Exon 20 30], True)"
    by code_simp
  then obtain K lost cn cs a where c: "create_kmer_graph G_alt pp_shared 2 = Inr (K, lost, cn, cs)"
    and w: "map_of (K_id_kmer_map K) 0 = Some [Exon 0 10, Exon 20 30]"
    and a: "map_of (K_node K) 0 = Some a"
    by (cases "create_kmer_graph G_alt pp_shared 2") auto
  have nd: "\<forall>ps\<in>set pp_shared.
      \<not> deferred (fst (get_start_end_nodes G_alt)) (snd (get_start_end_nodes G_alt)) 2 (fst ps)"
    by code_simp
  have s: "(\<Sum>ps\<leftarrow>pp_shared. snd ps * real (count_list (path_kmers (fst ps) 2)
              [Exon 0 10, Exon 20 30])) = 7"
    by code_simp
  from create_kmer_graph_unique_kmers[of G_alt pp_shared 2 K lost cn cs] c nd w a
  have "distinct (K_nodes K)" "distinct (map snd (K_id_kmer_map K))"
    "NODE_SCORE a = (\<Sum>ps\<leftarrow>pp_shared. snd ps * real (count_list (path_kmers (fst ps) 2)
              [Exon 0 10, Exon 20 30]))"
    by blast+
  with c w a s show ?thesis by auto
qed

subsection \<open>The pipeline\<close>

lemma build_kmer_graph_wf:
  assumes "build_kmer_graph G pp k = Inr (K, lost)"
  shows "K_wf K"
proof -
  from assms obtain st K1 kps where
    c: "convert_paths (fst (get_start_end_nodes G)) (snd (get_start_end_nodes G)) k
       \<lparr>st_kmer_id_map = [], st_id_kmer_map = [], st_kmer_paths = [],
        st_current_id = 0, st_short_partial_path_dict = []\<rparr> pp = Inr st"
    and a1: "add_paths \<lparr>K_node = [], K_edges = [], K_id_kmer_map = st_id_kmer_map st,
                K_source = SOURCE, K_sink = SINK\<rparr> (st_kmer_paths st) = Inr K1"
    and sh: "short_paths_loop (st_id_kmer_map st) K1 k [] [] (st_short_partial_path_dict st)
       = Inr (kps, lost)"
    and a2: "add_paths K1 kps = Inr K"
    by (rule build_kmer_graph_Inr)
  let ?all = "set (st_kmer_paths st) \<union> set kps"
  from add_paths_spec[OF a1]
  have e1: "set (K_edges K1) = (\<Union>ps\<in>set (st_kmer_paths st). set (zip (fst ps) (tl (fst ps))))"
    and n1: "set (K_nodes K1) = (\<Union>ps\<in>set (st_kmer_paths st). set (fst ps))"
    by (simp_all add: K_nodes_def)
  from add_paths_spec[OF a2]
  have e2: "set (K_edges K) = set (K_edges K1) \<union> (\<Union>ps\<in>set kps. set (zip (fst ps) (tl (fst ps))))"
    and n2: "set (K_nodes K) = set (K_nodes K1) \<union> (\<Union>ps\<in>set kps. set (fst ps))"
    by simp_all
  have "fst e \<in> set (K_nodes K) \<and> snd e \<in> set (K_nodes K)" if "e \<in> set (K_edges K)" for e
  proof -
    from that obtain ps where ps: "ps \<in> ?all" and e: "e \<in> set (zip (fst ps) (tl (fst ps)))"
      unfolding e2 e1 by blast
    from ps have sub: "set (fst ps) \<subseteq> set (K_nodes K)" unfolding n2 n1 by blast
    obtain u v where uv: "e = (u, v)" by (cases e)
    from e[unfolded uv] have "u \<in> set (fst ps)" by (rule set_zip_leftD)
    moreover from e[unfolded uv] have "v \<in> set (tl (fst ps))" by (rule set_zip_rightD)
    then have "v \<in> set (fst ps)" by (cases "fst ps") auto
    ultimately show ?thesis using sub uv by auto
  qed
  then show ?thesis by (simp add: K_wf_def list_all_iff)
qed

lemma convert_paths_nonempty:
  "convert_paths sn en k st pp = Inr st' \<Longrightarrow> \<forall>ps\<in>set pp. fst ps \<noteq> []"
proof (induction pp arbitrary: st)
  case Nil
  then show ?case by simp
next
  case (Cons ps pp)
  from Cons.prems obtain st1 where 1: "convert_path sn en k st ps = Inr st1"
    and 2: "convert_paths sn en k st1 pp = Inr st'"
    by (auto split: sum.splits)
  obtain path score where ps: "ps = (path, score)" by (cases ps)
  from convert_path_Inr(1)[OF 1[unfolded ps]] Cons.IH[OF 2] ps show ?case by simp
qed

lemma create_kmer_graph_nonempty:
  assumes "create_kmer_graph G pp k = Inr (K, lost, cn, cs)"
  shows "\<forall>ps\<in>set pp. fst ps \<noteq> []"
proof -
  from assms obtain K2 where "build_kmer_graph G pp k = Inr (K2, lost)"
    by (rule create_kmer_graph_Inr)
  then obtain st K1 kps where "convert_paths (fst (get_start_end_nodes G)) (snd (get_start_end_nodes G)) k
       \<lparr>st_kmer_id_map = [], st_id_kmer_map = [], st_kmer_paths = [],
        st_current_id = 0, st_short_partial_path_dict = []\<rparr> pp = Inr st"
    "add_paths \<lparr>K_node = [], K_edges = [], K_id_kmer_map = st_id_kmer_map st,
                K_source = SOURCE, K_sink = SINK\<rparr> (st_kmer_paths st) = Inr K1"
    "short_paths_loop (st_id_kmer_map st) K1 k [] [] (st_short_partial_path_dict st)
       = Inr (kps, lost)"
    "add_paths K1 kps = Inr K2"
    by (rule build_kmer_graph_Inr)
  then show ?thesis by (intro convert_paths_nonempty)
qed

lemma k_iteration_Inr:
  assumes "k_iteration G pp t k = Inr (K, s)"
  shows "\<exists>lost cn cs. create_kmer_graph G pp k = Inr (K, lost, cn, cs)"
  using assms by (auto simp: k_iteration_def Let_def split: sum.splits prod.splits if_splits)

lemma optimize_k_loop_Some:
  "optimize_k_loop G pp t thr acc ks = Inr (Some (K, k)) \<Longrightarrow>
   acc = Some (K, k) \<or> (k \<in> set ks \<and> (\<exists>s. k_iteration G pp t k = Inr (K, s)))"
proof (induction ks arbitrary: acc)
  case Nil
  then show ?case by simp
next
  case (Cons j ks)
  from Cons.prems obtain Kj s where it: "k_iteration G pp t j = Inr (Kj, s)"
    by (cases "k_iteration G pp t j") auto
  show ?case
  proof (cases "s < thr")
    case True
    with Cons.prems it show ?thesis by simp
  next
    case False
    with Cons.prems it have "optimize_k_loop G pp t thr (Some (Kj, j)) ks = Inr (Some (K, k))"
      by simp
    from Cons.IH[OF this] it show ?thesis by auto
  qed
qed

lemma optimize_k_Some:
  assumes "optimize_k G pp kmin kmax thr = Inr (Some (K, k))"
  shows "kmin \<le> k \<and> k \<le> kmax \<and> (\<exists>lost cn cs. create_kmer_graph G pp k = Inr (K, lost, cn, cs))"
  using optimize_k_loop_Some[OF assms[unfolded optimize_k_def]] k_iteration_Inr by fastforce

lemma fold_max_ge: "(a::int) \<le> fold max xs a"
proof (induction xs arbitrary: a)
  case Nil
  then show ?case by simp
next
  case (Cons x xs)
  have "a \<le> max x a" by simp
  also have "\<dots> \<le> fold max xs (max x a)" by (rule Cons.IH)
  finally show ?case by simp
qed

lemma assemble_transcript_graph_Inr:
  assumes "assemble_transcript_graph smooth_graph find_suboptimal_paths G strand partial_paths
             user_kmax ksensitivity fraction_major_path max_paths = Inr infos"
  shows "\<exists>K k lost cn cs. 1 \<le> k
      \<and> create_kmer_graph G partial_paths k = Inr (K, lost, cn, cs)
      \<and> assemble_loop G strand (K_id_kmer_map (smooth_graph K)) []
           (find_suboptimal_paths (smooth_graph K) (K_source (smooth_graph K))
              (K_sink (smooth_graph K)) (min (max 0 fraction_major_path) 1) max_paths)
          = Inr infos"
proof -
  let ?ls = "map (\<lambda>x. int (length (fst x))) partial_paths"
  define ks where "ks = min (max 0 ksensitivity) 1"
  define fr where "fr = min (max 0 fraction_major_path) 1"
  define kmax where "kmax = (if user_kmax > 0 then user_kmax else fold max (tl ?ls) (hd ?ls))"
  define kmin where "kmin = (if ks > 0 then 1 else kmax)"
  note a = assms[unfolded assemble_transcript_graph_def Let_def, folded ks_def fr_def]
  have ne: "user_kmax > 0 \<or> partial_paths \<noteq> []"
  proof (rule ccontr)
    assume "\<not> (user_kmax > 0 \<or> partial_paths \<noteq> [])"
    with a show False by simp
  qed
  then have km: "(if user_kmax > 0 then Inr user_kmax
               else if partial_paths = [] then Inl ValueError
               else Inr (fold max (tl ?ls) (hd ?ls))) = (Inr kmax :: py_error + int)"
    by (auto simp: kmax_def)
  from a have b: "(case optimize_k G partial_paths kmin kmax ks of
                   Inl e \<Rightarrow> Inl e
                 | Inr None \<Rightarrow> Inl TypeError
                 | Inr (Some (K, k)) \<Rightarrow>
                     assemble_loop G strand (K_id_kmer_map (smooth_graph K)) []
                       (find_suboptimal_paths (smooth_graph K) (K_source (smooth_graph K))
                          (K_sink (smooth_graph K)) fr max_paths)) = Inr infos"
    unfolding km kmin_def by simp
  then obtain K k where
    o: "optimize_k G partial_paths kmin kmax ks = Inr (Some (K, k))"
    and l: "assemble_loop G strand (K_id_kmer_map (smooth_graph K)) []
           (find_suboptimal_paths (smooth_graph K) (K_source (smooth_graph K))
              (K_sink (smooth_graph K)) fr max_paths)
          = Inr infos"
    by (auto split: sum.splits option.splits prod.splits)
  from optimize_k_Some[OF o] obtain lost cn cs where
    r: "kmin \<le> k" "k \<le> kmax" and c: "create_kmer_graph G partial_paths k = Inr (K, lost, cn, cs)"
    by blast
  have "1 \<le> kmax"
  proof (cases "user_kmax > 0")
    case True
    then show ?thesis by (simp add: kmax_def)
  next
    case False
    with ne obtain p ps where pp: "partial_paths = p # ps" by (cases partial_paths) auto
    with create_kmer_graph_nonempty[OF c] have "1 \<le> int (length (fst p))"
      by (cases "fst p") auto
    also have "\<dots> \<le> fold max (tl ?ls) (hd ?ls)" unfolding pp by (simp add: fold_max_ge)
    finally show ?thesis using False by (simp add: kmax_def)
  qed
  with r(1) have "1 \<le> k" by (auto simp: kmin_def split: if_splits)
  with c l show ?thesis unfolding fr_def by blast
qed

subsection \<open>The claims on clipping and on path reconstruction\<close>

lemma clip_dangling_ends_wf:
  assumes "K_wf K"
  shows "\<exists>K' clip_nodes clip_score.
     clip_dangling_ends K = Inr (K', clip_nodes, clip_score)
     \<and> (\<forall>n\<in>set (K_nodes K'). n \<noteq> K_source K \<and> n \<noteq> K_sink K \<longrightarrow>
           0 < K_in_degree K' n \<and> 0 < K_out_degree K' n)
     \<and> clip_dangling_ends K' = Inr (K', [], 0)"
proof -
  have "no_dangling_outside K (remdups (K_nodes K))" by (simp add: no_dangling_outside_def)
  from clip_loop_no_dangling[OF assms _ this, of "[]" 0]
  obtain K' cn cs where r: "clip_dangling_ends K = Inr (K', cn, cs)" "no_dangling_outside K' []"
    "K_source K' = K_source K" "K_sink K' = K_sink K"
    by (auto simp: clip_dangling_ends_def)
  from r(2) have "clip_dangling_ends K' = Inr (K', [], 0)" by (rule clip_dangling_ends_no_dangling)
  with r show ?thesis by (auto simp: no_dangling_outside_def)
qed

text \<open>
  C2: on a digraph (both ends of every edge are nodes, which networkx guarantees, and
  which holds of every graph that \<open>create_kmer_graph\<close> builds before it clips),
  \<open>clip_dangling_ends\<close> returns, and in the graph it leaves every node other than the two
  sentinels has a predecessor and a successor; run again on that graph it removes no
  node, leaves the graph as it is and returns the clipped score 0.
\<close>

theorem clip_dangling_ends_fixed_point:
  "(K_wf K \<longrightarrow>
      (\<exists>K' clip_nodes clip_score.
         clip_dangling_ends K = Inr (K', clip_nodes, clip_score)
         \<and> (\<forall>n\<in>set (K_nodes K'). n \<noteq> K_source K \<and> n \<noteq> K_sink K \<longrightarrow>
               0 < K_in_degree K' n \<and> 0 < K_out_degree K' n)
         \<and> clip_dangling_ends K' = Inr (K', [], 0)))
   \<and> (build_kmer_graph G partial_paths k = Inr (K, lost_paths) \<longrightarrow> K_wf K)"
  using clip_dangling_ends_wf[of K] build_kmer_graph_wf[of G partial_paths k K lost_paths]
  by blast

theorem clip_dangling_ends_fixed_point_witness:
  "\<exists>K'. clip_dangling_ends K_dangling = Inr (K', [2, 1], 3)
      \<and> K_nodes K' = [- 1, 0, - 2]
      \<and> clip_dangling_ends K' = Inr (K', [], 0)"
proof -
  have wf: "K_wf K_dangling" by code_simp
  have ev: "map_sum id (\<lambda>(K', cn, cs). (K_nodes K', cn, cs)) (clip_dangling_ends K_dangling)
              = Inr ([- 1, 0, - 2], [2, 1], 3)"
    by code_simp
  from clip_dangling_ends_fixed_point[of K_dangling] wf
  obtain K' cn cs where r: "clip_dangling_ends K_dangling = Inr (K', cn, cs)"
      "clip_dangling_ends K' = Inr (K', [], 0)"
    by blast
  with ev show ?thesis by auto
qed

lemma reconstruct_path_walk:
  assumes "create_kmer_graph G partial_paths k = Inr (K, lost_paths, clip_nodes, clip_score)"
    and "1 \<le> k"
    and "kmer_path = SOURCE # ids @ [SINK]" and "ids \<noteq> []"
    and "successively (\<lambda>u v. (u, v) \<in> set (K_edges K)) kmer_path"
  shows "\<exists>ks. map (map_of (K_id_kmer_map K)) ids = map Some ks
           \<and> reconstruct_path (K_id_kmer_map K) kmer_path = Inr (hd ks @ map last (tl ks))
           \<and> path_kmers (hd ks @ map last (tl ks)) k = ks"
proof -
  let ?idk = "K_id_kmer_map K"
  from assms(1) obtain K2 where b: "build_kmer_graph G partial_paths k = Inr (K2, lost_paths)"
    and cl: "clip_dangling_ends K2 = Inr (K, clip_nodes, clip_score)"
    by (rule create_kmer_graph_Inr)
  note cs = clip_loop_spec[OF cl[unfolded clip_dangling_ends_def]]
  note be = build_kmer_graph_edges[OF assms(2) b]
  from cs have idk: "K_id_kmer_map K2 = ?idk" by simp
  have edges: "\<And>u v. (u, v) \<in> set (K_edges K) \<Longrightarrow> edge_ok ?idk k u v"
    using be(1) cs unfolding idk by fastforce
  from assms(5) have "successively (edge_ok ?idk k) kmer_path"
    by (rule successively_mono) (rule edges)
  from walk_interior[OF be(3,4)[unfolded idk] this[unfolded assms(3)]]
  have dom: "list_all (\<lambda>i. map_of ?idk i \<noteq> None) ids"
    and ov: "successively (kmers_overlap ?idk k) ids" by simp_all
  define ks where "ks = map (\<lambda>i. the (map_of ?idk i)) ids"
  have m: "map (map_of ?idk) ids = map Some ks"
    using dom by (auto simp: ks_def list_all_iff)
  have len: "length ks = length ids" by (simp add: ks_def)
  with assms(4) obtain w ws where kw: "ks = w # ws" by (cases ks) auto
  then obtain i rest where ir: "ids = i # rest" using len by (cases ids) auto
  have lenok: "\<forall>w\<in>set ks. w \<noteq> [] \<and> int (length w) \<le> k"
  proof
    fix x assume "x \<in> set ks"
    then obtain j where "j < length ids" "x = ks ! j" using len by (auto simp: in_set_conv_nth)
    with map_of_nth_Some(2)[OF m] have "map_of ?idk (ids ! j) = Some x" by simp
    then have "x \<in> snd ` set ?idk" by (auto dest: map_of_SomeD intro: rev_image_eqI)
    with be(2) show "x \<noteq> [] \<and> int (length x) \<le> k" unfolding idk kmers_len_ok_def by blast
  qed
  have m': "map (map_of ?idk) (i # rest) = map Some (w # ws)" using m unfolding ir kw .
  have ne: "\<forall>x\<in>set ws. x \<noteq> []" using lenok unfolding kw by simp
  have rec: "reconstruct_path ?idk kmer_path = Inr (w @ map last ws)"
    using reconstruct_path_Some[OF m' ne, of SOURCE SINK] by (simp add: assms(3) ir)
  note ch = overlap_chain_kmers[OF m ov]
  have pk: "path_kmers (w @ map last ws) k = ks"
  proof (cases "\<forall>x\<in>set ks. int (length x) = k")
    case True
    from chain_get_kmers[OF assms(2) _ True ch(1)] kw
    have "get_kmers (w @ map last ws) k = ks" by simp
    moreover from True kw have "\<not> int (length (w @ map last ws)) < k" by simp
    ultimately show ?thesis by (simp add: path_kmers_def)
  next
    case False
    with ch(2) have "\<not> 2 \<le> length ids" by blast
    with ir len kw have ws: "ws = []" by (cases ws) auto
    with False kw lenok have "int (length w) < k" by fastforce
    with ws kw show ?thesis by (simp add: path_kmers_def)
  qed
  from m rec pk kw show ?thesis by (intro exI[of _ ks]) simp
qed

subsection \<open>The reconstruction in assemble_transcript_graph\<close>

lemma assemble_loop_spec:
  "assemble_loop G strand idk acc paths = Inr infos \<Longrightarrow>
   \<exists>new. infos = acc @ new
      \<and> list_all2 (\<lambda>info kp. \<exists>path exons. reconstruct_path idk (fst kp) = Inr path
                       \<and> expand_path_chains G strand path = Inr exons
                       \<and> info = PathInfo (snd kp) exons) new paths"
proof (induction paths arbitrary: acc)
  case Nil
  then show ?case by simp
next
  case (Cons kp paths)
  obtain kmer_path score where kp: "kp = (kmer_path, score)" by (cases kp)
  from Cons.prems kp obtain path exons where
    r: "reconstruct_path idk kmer_path = Inr path"
    and e: "expand_path_chains G strand path = Inr exons"
    and l: "assemble_loop G strand idk (acc @ [PathInfo score exons]) paths = Inr infos"
    by (auto split: sum.splits)
  from Cons.IH[OF l] obtain new where n: "infos = (acc @ [PathInfo score exons]) @ new"
    "list_all2 (\<lambda>info kp. \<exists>path exons. reconstruct_path idk (fst kp) = Inr path
                       \<and> expand_path_chains G strand path = Inr exons
                       \<and> info = PathInfo (snd kp) exons) new paths"
    by blast
  from n r e kp show ?case
    by (intro exI[of _ "PathInfo score exons # new"]) auto
qed

lemma create_kmer_graph_sentinels:
  assumes "create_kmer_graph G pp k = Inr (K, lost, cn, cs)"
  shows "K_source K = SOURCE" and "K_sink K = SINK"
proof -
  from assms obtain K2 where b: "build_kmer_graph G pp k = Inr (K2, lost)"
    and cl: "clip_dangling_ends K2 = Inr (K, cn, cs)" by (rule create_kmer_graph_Inr)
  from clip_loop_spec[OF cl[unfolded clip_dangling_ends_def]] build_kmer_graph_ids(5,6)[OF b]
  show "K_source K = SOURCE" and "K_sink K = SINK" by simp_all
qed

text \<open>
  C9: let the smoother keep the edges, the table of kmers and the two sentinels of a
  graph, and let every path that the path finder returns run along edges of the graph
  it is given, from the source to the sink over at least one vertex. Then, whenever
  \<open>assemble_transcript_graph\<close> returns, it has built a graph with \<open>create_kmer_graph\<close> at
  some \<open>k\<close> of one or more, and its result has one \<open>PathInfo\<close> for each path of the path
  finder, in order: the ids between \<open>SOURCE\<close> and \<open>SINK\<close> are ids of kmers, the
  reconstruction from the table of the smoothed graph is the first kmer followed by the
  last element of each later kmer, the kmers of that node sequence are the kmers along
  the path, and the \<open>PathInfo\<close> carries the score of the path with the exons that
  \<open>expand_path_chains\<close> makes of that node sequence.
\<close>

theorem reconstruct_path_underlying_nodes:
  assumes "\<forall>K. K_id_kmer_map (smooth_graph K) = K_id_kmer_map K
              \<and> set (K_edges (smooth_graph K)) = set (K_edges K)
              \<and> K_source (smooth_graph K) = K_source K
              \<and> K_sink (smooth_graph K) = K_sink K"
    and "\<forall>K source sink f m. \<forall>kp\<in>set (find_suboptimal_paths K source sink f m).
            \<exists>ids. fst kp = source # ids @ [sink] \<and> ids \<noteq> []
               \<and> successively (\<lambda>u v. (u, v) \<in> set (K_edges K)) (fst kp)"
    and "assemble_transcript_graph smooth_graph find_suboptimal_paths G strand partial_paths
           user_kmax ksensitivity fraction_major_path max_paths = Inr infos"
  shows "\<exists>K k lost cn cs. 1 \<le> k
      \<and> create_kmer_graph G partial_paths k = Inr (K, lost, cn, cs)
      \<and> list_all2
          (\<lambda>info kp. \<exists>ids ks exons.
              fst kp = SOURCE # ids @ [SINK]
              \<and> map (map_of (K_id_kmer_map K)) ids = map Some ks
              \<and> reconstruct_path (K_id_kmer_map (smooth_graph K)) (fst kp)
                   = Inr (hd ks @ map last (tl ks))
              \<and> path_kmers (hd ks @ map last (tl ks)) k = ks
              \<and> expand_path_chains G strand (hd ks @ map last (tl ks)) = Inr exons
              \<and> info = PathInfo (snd kp) exons)
          infos
          (find_suboptimal_paths (smooth_graph K) SOURCE SINK
             (min (max 0 fraction_major_path) 1) max_paths)"
proof -
  from assemble_transcript_graph_Inr[OF assms(3)] obtain K k lost cn cs where
    k: "1 \<le> k" and c: "create_kmer_graph G partial_paths k = Inr (K, lost, cn, cs)"
    and l: "assemble_loop G strand (K_id_kmer_map (smooth_graph K)) []
           (find_suboptimal_paths (smooth_graph K) (K_source (smooth_graph K))
              (K_sink (smooth_graph K)) (min (max 0 fraction_major_path) 1) max_paths)
          = Inr infos"
    by blast
  let ?fr = "min (max 0 fraction_major_path) 1"
  let ?paths = "find_suboptimal_paths (smooth_graph K) SOURCE SINK ?fr max_paths"
  from assms(1) have sm: "K_id_kmer_map (smooth_graph K) = K_id_kmer_map K"
    "set (K_edges (smooth_graph K)) = set (K_edges K)"
    "K_source (smooth_graph K) = K_source K" "K_sink (smooth_graph K) = K_sink K"
    by simp_all
  note st = create_kmer_graph_sentinels[OF c]
  from l have l': "assemble_loop G strand (K_id_kmer_map K) [] ?paths = Inr infos"
    unfolding sm st by simp
  from assemble_loop_spec[OF l']
  have a: "list_all2 (\<lambda>info kp. \<exists>path exons. reconstruct_path (K_id_kmer_map K) (fst kp) = Inr path
                       \<and> expand_path_chains G strand path = Inr exons
                       \<and> info = PathInfo (snd kp) exons) infos ?paths"
    by simp
  show ?thesis
  proof (intro exI conjI)
    show "1 \<le> k" by (rule k)
    show "create_kmer_graph G partial_paths k = Inr (K, lost, cn, cs)" by (rule c)
    show "list_all2
          (\<lambda>info kp. \<exists>ids ks exons.
              fst kp = SOURCE # ids @ [SINK]
              \<and> map (map_of (K_id_kmer_map K)) ids = map Some ks
              \<and> reconstruct_path (K_id_kmer_map (smooth_graph K)) (fst kp)
                   = Inr (hd ks @ map last (tl ks))
              \<and> path_kmers (hd ks @ map last (tl ks)) k = ks
              \<and> expand_path_chains G strand (hd ks @ map last (tl ks)) = Inr exons
              \<and> info = PathInfo (snd kp) exons)
          infos ?paths"
      using a
    proof (rule list.rel_mono_strong)
      fix info kp
      assume kp: "kp \<in> set ?paths"
        and r: "\<exists>path exons. reconstruct_path (K_id_kmer_map K) (fst kp) = Inr path
                       \<and> expand_path_chains G strand path = Inr exons
                       \<and> info = PathInfo (snd kp) exons"
      from assms(2) kp obtain ids where ids: "fst kp = SOURCE # ids @ [SINK]" "ids \<noteq> []"
        and w: "successively (\<lambda>u v. (u, v) \<in> set (K_edges (smooth_graph K))) (fst kp)"
        by blast
      from w have w': "successively (\<lambda>u v. (u, v) \<in> set (K_edges K)) (fst kp)"
        unfolding sm .
      from reconstruct_path_walk[OF c k ids w'] obtain ks where
        ks: "map (map_of (K_id_kmer_map K)) ids = map Some ks"
        "reconstruct_path (K_id_kmer_map K) (fst kp) = Inr (hd ks @ map last (tl ks))"
        "path_kmers (hd ks @ map last (tl ks)) k = ks"
        by blast
      from r ks(2) obtain exons where
        "expand_path_chains G strand (hd ks @ map last (tl ks)) = Inr exons"
        "info = PathInfo (snd kp) exons" by auto
      with ids(1) ks show "\<exists>ids ks exons.
              fst kp = SOURCE # ids @ [SINK]
              \<and> map (map_of (K_id_kmer_map K)) ids = map Some ks
              \<and> reconstruct_path (K_id_kmer_map (smooth_graph K)) (fst kp)
                   = Inr (hd ks @ map last (tl ks))
              \<and> path_kmers (hd ks @ map last (tl ks)) k = ks
              \<and> expand_path_chains G strand (hd ks @ map last (tl ks)) = Inr exons
              \<and> info = PathInfo (snd kp) exons"
        unfolding sm by blast
    qed
  qed
qed

theorem reconstruct_path_underlying_nodes_witness:
  "assemble_transcript_graph (\<lambda>K. K) walk_path_finder G_alt POS_STRAND pp_fragment 2 0 1 10
     = Inr [PathInfo 1 [Exon 0 10, Exon 20 30, Exon 60 70]]
   \<and> (\<exists>K k lost cn cs. 1 \<le> k
        \<and> create_kmer_graph G_alt pp_fragment k = Inr (K, lost, cn, cs)
        \<and> walk_path_finder K SOURCE SINK 1 10 = [([SOURCE, 0, 1, SINK], 1)]
        \<and> (\<exists>path. reconstruct_path (K_id_kmer_map K) [SOURCE, 0, 1, SINK] = Inr path
              \<and> expand_path_chains G_alt POS_STRAND path
                   = Inr [Exon 0 10, Exon 20 30, Exon 60 70]))"
proof -
  have h1: "\<forall>K::exon kmer_graph. K_id_kmer_map ((\<lambda>K. K) K) = K_id_kmer_map K
              \<and> set (K_edges ((\<lambda>K. K) K)) = set (K_edges K)
              \<and> K_source ((\<lambda>K. K) K) = K_source K
              \<and> K_sink ((\<lambda>K. K) K) = K_sink K"
    by simp
  have h2: "\<forall>K source sink f m. \<forall>kp\<in>set (walk_path_finder K source sink f m).
            \<exists>ids. fst kp = source # ids @ [sink] \<and> ids \<noteq> []
               \<and> successively (\<lambda>u v. (u, v) \<in> set (K_edges K)) (fst kp)"
  proof (intro allI ballI)
    fix K :: "exon kmer_graph" and source sink :: int and f :: real and m :: int and kp
    assume "kp \<in> set (walk_path_finder K source sink f m)"
    then have "fst kp = source # [0, 1] @ [sink]"
      and "successively (\<lambda>u v. (u, v) \<in> set (K_edges K)) (fst kp)"
      by (auto simp: walk_path_finder_def split: if_splits)
    then show "\<exists>ids. fst kp = source # ids @ [sink] \<and> ids \<noteq> []
               \<and> successively (\<lambda>u v. (u, v) \<in> set (K_edges K)) (fst kp)"
      by blast
  qed
  have h3: "assemble_transcript_graph (\<lambda>K. K) walk_path_finder G_alt POS_STRAND pp_fragment
              2 0 1 10 = Inr [PathInfo 1 [Exon 0 10, Exon 20 30, Exon 60 70]]"
    by code_simp
  have m: "min (max 0 (1::real)) 1 = 1" by simp
  from reconstruct_path_underlying_nodes[OF h1 h2 h3, unfolded m]
  obtain K k lost cn cs where k: "1 \<le> k"
    and c: "create_kmer_graph G_alt pp_fragment k = Inr (K, lost, cn, cs)"
    and l: "list_all2
          (\<lambda>info kp. \<exists>ids ks exons.
              fst kp = SOURCE # ids @ [SINK]
              \<and> map (map_of (K_id_kmer_map K)) ids = map Some ks
              \<and> reconstruct_path (K_id_kmer_map K) (fst kp) = Inr (hd ks @ map last (tl ks))
              \<and> path_kmers (hd ks @ map last (tl ks)) k = ks
              \<and> expand_path_chains G_alt POS_STRAND (hd ks @ map last (tl ks)) = Inr exons
              \<and> info = PathInfo (snd kp) exons)
          [PathInfo 1 [Exon 0 10, Exon 20 30, Exon 60 70]]
          (walk_path_finder K SOURCE SINK 1 10)"
    by blast
  from l obtain kp where w: "walk_path_finder K SOURCE SINK 1 10 = [kp]"
    by (auto simp: list_all2_Cons1)
  then have kp: "kp = ([SOURCE, 0, 1, SINK], 1)"
    by (auto simp: walk_path_finder_def split: if_splits)
  from l[unfolded w] obtain ks exons where
    r: "reconstruct_path (K_id_kmer_map K) [SOURCE, 0, 1, SINK] = Inr (hd ks @ map last (tl ks))"
    and e: "expand_path_chains G_alt POS_STRAND (hd ks @ map last (tl ks)) = Inr exons"
    and i: "PathInfo 1 [Exon 0 10, Exon 20 30, Exon 60 70] = PathInfo 1 exons"
    unfolding kp by auto
  from i have x: "exons = [Exon 0 10, Exon 20 30, Exon 60 70]" by simp
  from r e[unfolded x]
  have p: "\<exists>path. reconstruct_path (K_id_kmer_map K) [SOURCE, 0, 1, SINK] = Inr path
              \<and> expand_path_chains G_alt POS_STRAND path
                   = Inr [Exon 0 10, Exon 20 30, Exon 60 70]"
    by blast
  from w kp have w': "walk_path_finder K SOURCE SINK 1 10 = [([SOURCE, 0, 1, SINK], 1)]"
    by simp
  from h3 k c w' p show ?thesis by blast
qed

subsection \<open>Conservation of the score\<close>
























lemma path_score_sum_append:
  "path_score_sum (xs @ ys) = path_score_sum xs + path_score_sum ys"
  by (simp add: path_score_sum_def)





subsection \<open>optimize_k with a single candidate\<close>





end
